theory Spec2Isabelle
  imports Main "HOL-Library.Word"
begin

section \<open>Values, producers and user callbacks\<close>

text \<open>
  The cached value of a \<open>Pipeline\<close> is either one of the two module-private sentinel
  symbols \<open>UNSET\<close> and \<open>COMPUTING\<close> or a user value. The type parameter \<open>'v\<close> stands for
  the user values; HOL equality on it stands for the strict equality \<open>===\<close> of the source
  (for a composite value, \<open>'v\<close> is the set of object identities). The one value that
  \<open>===\<close> does not take for equal to itself, \<open>NaN\<close>, is not among them.
\<close>

datatype 'v jsval = UNSET | COMPUTING | Val 'v

text \<open>
  Objects are named by their address. A producer is either a \<open>ValuePipeline\<close> object
  (\<open>V\<close>) or a \<open>Pipeline\<close> object (\<open>P\<close>); every consumer is a \<open>Pipeline\<close>, so a consumer
  (and the \<open>WeakRef\<close> to it) is named by the address of the pipeline.
\<close>

datatype producer = V nat | P nat

text \<open>The three forms of the field \<open>stale: boolean | Producer\<close>.\<close>

datatype stale = StaleFalse | StaleTrue | StaleBy producer

text \<open>
  The errors of the engine, and \<open>Thrown\<close> for an exception raised by user code.
\<close>

datatype error = Circular | ChangedWhileCalculating | Thrown

text \<open>
  User code (the body of \<open>calculate\<close>, and the callbacks passed to \<open>updateValue\<close> and
  \<open>mutateValue\<close>) is a tree of the engine calls it makes: it returns a value, throws,
  reads the \<open>value\<close> of a producer and goes on with what it got, or calls \<open>setValue\<close> on a
  \<open>ValuePipeline\<close> and goes on. \<open>Catch c h\<close> is \<open>try { return c } catch (e) { return h e }\<close>:
  the engine catches no exception itself, but user code may.
\<close>

datatype 'v prog =
    Return "'v jsval"
  | Throw
  | Read producer "'v jsval \<Rightarrow> 'v prog"
  | Write nat "'v jsval" "'v prog"
  | Catch "'v prog" "error \<Rightarrow> 'v prog"

section \<open>The edge maps\<close>

text \<open>
  \<open>LinearMap\<close> keeps its entries in \<open>internalArray\<close>, a key slot followed by a value slot,
  both \<open>null\<close> once deleted; here one element of the list is such a pair of slots.
  The built-in \<open>Map\<close> that replaces a \<open>LinearMap\<close> of 100 entries keeps its entries in
  insertion order and marks a deleted entry as empty, which is what its live iterator
  relies on; it is modelled by the same kind of list.
\<close>

type_synonym 'k slots = "('k \<times> nat) option list"

fun slots_get :: "'k slots \<Rightarrow> 'k \<Rightarrow> nat option" where
  "slots_get [] key = None"
| "slots_get (None # xs) key = slots_get xs key"
| "slots_get (Some (k, v) # xs) key = (if k = key then Some v else slots_get xs key)"

fun slots_has :: "'k slots \<Rightarrow> 'k \<Rightarrow> bool" where
  "slots_has [] key = False"
| "slots_has (None # xs) key = slots_has xs key"
| "slots_has (Some (k, v) # xs) key = (k = key \<or> slots_has xs key)"

text \<open>Overwrite the value of the first slot holding the key.\<close>

fun slots_update :: "'k slots \<Rightarrow> 'k \<Rightarrow> nat \<Rightarrow> 'k slots" where
  "slots_update [] key value = []"
| "slots_update (None # xs) key value = None # slots_update xs key value"
| "slots_update (Some (k, v) # xs) key value =
     (if k = key then Some (k, value) # xs else Some (k, v) # slots_update xs key value)"

text \<open>Put a new entry into the first \<open>null\<close> slot (\<open>nullIndex\<close>), or push it.\<close>

fun slots_fill :: "'k slots \<Rightarrow> 'k \<Rightarrow> nat \<Rightarrow> 'k slots" where
  "slots_fill [] key value = [Some (key, value)]"
| "slots_fill (None # xs) key value = Some (key, value) # xs"
| "slots_fill (Some e # xs) key value = Some e # slots_fill xs key value"

text \<open>Null the first slot holding the key.\<close>

fun slots_delete :: "'k slots \<Rightarrow> 'k \<Rightarrow> 'k slots" where
  "slots_delete [] key = []"
| "slots_delete (None # xs) key = None # slots_delete xs key"
| "slots_delete (Some (k, v) # xs) key =
     (if k = key then None # xs else Some (k, v) # slots_delete xs key)"

fun toTuples :: "'k slots \<Rightarrow> ('k \<times> nat) list" where
  "toTuples [] = []"
| "toTuples (None # xs) = toTuples xs"
| "toTuples (Some e # xs) = e # toTuples xs"

record 'k LinearMap =
  internalArray :: "'k slots"
  size_field :: nat

definition LinearMap_new :: "'k LinearMap" where
  "LinearMap_new = \<lparr>internalArray = [], size_field = 0\<rparr>"

definition LinearMap_get :: "'k LinearMap \<Rightarrow> 'k \<Rightarrow> nat option" where
  "LinearMap_get m key = slots_get (internalArray m) key"

definition LinearMap_set :: "'k LinearMap \<Rightarrow> 'k \<Rightarrow> nat \<Rightarrow> 'k LinearMap" where
  "LinearMap_set m key value =
     (if slots_has (internalArray m) key
      then m\<lparr>internalArray := slots_update (internalArray m) key value\<rparr>
      else m\<lparr>internalArray := slots_fill (internalArray m) key value,
             size_field := size_field m + 1\<rparr>)"

definition LinearMap_delete :: "'k LinearMap \<Rightarrow> 'k \<Rightarrow> 'k LinearMap" where
  "LinearMap_delete m key =
     (if slots_has (internalArray m) key
      then m\<lparr>internalArray := slots_delete (internalArray m) key,
             size_field := size_field m - 1\<rparr>
      else m)"

text \<open>The built-in \<open>Map\<close>: \<open>set\<close> of a new key appends, \<open>size\<close> counts the live entries.\<close>

definition Map_get :: "'k slots \<Rightarrow> 'k \<Rightarrow> nat option" where
  "Map_get m key = slots_get m key"

definition Map_set :: "'k slots \<Rightarrow> 'k \<Rightarrow> nat \<Rightarrow> 'k slots" where
  "Map_set m key value =
     (if slots_has m key then slots_update m key value else m @ [Some (key, value)])"

definition Map_delete :: "'k slots \<Rightarrow> 'k \<Rightarrow> 'k slots" where
  "Map_delete m key = slots_delete m key"

definition Map_size :: "'k slots \<Rightarrow> nat" where
  "Map_size m = length (toTuples m)"

definition Map_new :: "('k \<times> nat) list \<Rightarrow> 'k slots" where
  "Map_new tuples = map Some tuples"

text \<open>
  A field \<open>consumers\<close> or \<open>producers\<close> holds the \<open>LinearMap\<close> the object was built with
  until \<open>producerAccessed\<close> replaces it, once, by a \<open>Map\<close>. A loop that has taken the
  \<open>LinearMap\<close> out of the field before goes on using that object, so both objects are
  kept: \<open>linear\<close> is the \<open>LinearMap\<close>, \<open>hashed\<close> the \<open>Map\<close> once there is one, and the
  field denotes the \<open>Map\<close> if there is one. A \<open>mapref\<close> says which of the two objects a
  local variable such as \<open>const producers = consumer.producers\<close> holds.
\<close>

record 'k edges =
  linear :: "'k LinearMap"
  hashed :: "'k slots option"

datatype mapref = LinearRef | MapRef

definition edges_new :: "'k edges" where
  "edges_new = \<lparr>linear = LinearMap_new, hashed = None\<rparr>"

definition field_ref :: "'k edges \<Rightarrow> mapref" where
  "field_ref e = (case hashed e of None \<Rightarrow> LinearRef | Some m \<Rightarrow> MapRef)"

definition the_Map :: "'k edges \<Rightarrow> 'k slots" where
  "the_Map e = (case hashed e of None \<Rightarrow> [] | Some m \<Rightarrow> m)"

definition edges_get :: "mapref \<Rightarrow> 'k edges \<Rightarrow> 'k \<Rightarrow> nat option" where
  "edges_get r e key =
     (case r of LinearRef \<Rightarrow> LinearMap_get (linear e) key
              | MapRef \<Rightarrow> Map_get (the_Map e) key)"

text \<open>
  A \<open>MapRef\<close> is only ever taken from a field that holds a \<open>Map\<close>; for completeness,
  \<open>set\<close> and \<open>delete\<close> through a \<open>MapRef\<close> do nothing when there is no \<open>Map\<close>.
\<close>

definition edges_set :: "mapref \<Rightarrow> 'k edges \<Rightarrow> 'k \<Rightarrow> nat \<Rightarrow> 'k edges" where
  "edges_set r e key value =
     (case r of
        LinearRef \<Rightarrow> e\<lparr>linear := LinearMap_set (linear e) key value\<rparr>
      | MapRef \<Rightarrow>
          (case hashed e of
             None \<Rightarrow> e
           | Some m \<Rightarrow> e\<lparr>hashed := Some (Map_set m key value)\<rparr>))"

definition edges_delete :: "mapref \<Rightarrow> 'k edges \<Rightarrow> 'k \<Rightarrow> 'k edges" where
  "edges_delete r e key =
     (case r of
        LinearRef \<Rightarrow> e\<lparr>linear := LinearMap_delete (linear e) key\<rparr>
      | MapRef \<Rightarrow>
          (case hashed e of
             None \<Rightarrow> e
           | Some m \<Rightarrow> e\<lparr>hashed := Some (Map_delete m key)\<rparr>))"

definition edges_size :: "mapref \<Rightarrow> 'k edges \<Rightarrow> nat" where
  "edges_size r e =
     (case r of LinearRef \<Rightarrow> size_field (linear e) | MapRef \<Rightarrow> Map_size (the_Map e))"

text \<open>
  The two lines of \<open>producerAccessed\<close> that follow each \<open>set\<close>: a \<open>LinearMap\<close> in the field
  whose \<open>size\<close> is exactly 100 is replaced by a \<open>Map\<close> of its tuples.
\<close>

definition upgrade :: "'k edges \<Rightarrow> 'k edges" where
  "upgrade e =
     (if field_ref e = LinearRef \<and> size_field (linear e) = 100
      then e\<lparr>hashed := Some (Map_new (toTuples (internalArray (linear e))))\<rparr>
      else e)"

text \<open>
  Iteration (\<open>for (const [k, v] of m)\<close>). The iterator of a \<open>LinearMap\<close> yields from
  \<open>toTuples()\<close>, an array built when the loop starts. The iterator of a \<open>Map\<close> is live: it
  holds an index into the entries, skips the empty ones and sees entries appended
  meanwhile.
\<close>

datatype 'k iter = Snapshot "('k \<times> nat) list" | Live nat

definition iter_start :: "mapref \<Rightarrow> 'k edges \<Rightarrow> 'k iter" where
  "iter_start r e =
     (case r of LinearRef \<Rightarrow> Snapshot (toTuples (internalArray (linear e)))
              | MapRef \<Rightarrow> Live 0)"

fun live_next :: "'k slots \<Rightarrow> nat \<Rightarrow> (('k \<times> nat) \<times> nat) option" where
  "live_next [] i = None"
| "live_next (None # xs) i = live_next xs (Suc i)"
| "live_next (Some e # xs) i = Some (e, Suc i)"

definition iter_next :: "'k iter \<Rightarrow> 'k edges \<Rightarrow> (('k \<times> nat) \<times> 'k iter) option" where
  "iter_next it e =
     (case it of
        Snapshot [] \<Rightarrow> None
      | Snapshot (x # xs) \<Rightarrow> Some (x, Snapshot xs)
      | Live i \<Rightarrow>
          (case live_next (drop i (the_Map e)) i of
             None \<Rightarrow> None
           | Some (x, j) \<Rightarrow> Some (x, Live j)))"

section \<open>The objects and the state\<close>

text \<open>
  Version counters are JavaScript numbers that only ever go up by one from 1; they are
  natural numbers here.
\<close>

record 'v ValuePipeline =
  v_consumers :: "nat edges"
  v_valueVersion :: nat
  v_value :: "'v jsval"

text \<open>
  \<open>p_calculate\<close> is the method \<open>calculate()\<close> of the object's class. \<open>p_reclaimed\<close> says
  that the object has been garbage collected, so that \<open>deref()\<close> of the \<open>WeakRef\<close> to it
  gives \<open>undefined\<close>.
\<close>

record 'v Pipeline =
  p_consumers :: "nat edges"
  p_producers :: "producer edges"
  p_valueVersion :: nat
  p_trackingVersion :: nat
  p_stale :: stale
  p_value :: "'v jsval"
  p_calculate :: "'v prog"
  p_reclaimed :: bool

text \<open>
  The state: the objects by address, the module variable \<open>activeConsumer\<close>, and a
  counter of the calls of \<open>calculate()\<close> (the \<open>calculationsCount\<close> of the benchmark).
\<close>

record 'v state =
  valuePipelines :: "nat \<Rightarrow> 'v ValuePipeline"
  pipelines :: "nat \<Rightarrow> 'v Pipeline"
  activeConsumer :: "nat option"
  calculationsCount :: nat

definition ValuePipeline_new :: "'v jsval \<Rightarrow> 'v ValuePipeline" where
  "ValuePipeline_new x = \<lparr>v_consumers = edges_new, v_valueVersion = 1, v_value = x\<rparr>"

definition Pipeline_new :: "'v prog \<Rightarrow> 'v Pipeline" where
  "Pipeline_new c =
     \<lparr>p_consumers = edges_new, p_producers = edges_new, p_valueVersion = 1,
      p_trackingVersion = 1, p_stale = StaleTrue, p_value = UNSET, p_calculate = c,
      p_reclaimed = False\<rparr>"

definition consumers_of :: "'v state \<Rightarrow> producer \<Rightarrow> nat edges" where
  "consumers_of s q =
     (case q of V j \<Rightarrow> v_consumers (valuePipelines s j) | P i \<Rightarrow> p_consumers (pipelines s i))"

definition valueVersion_of :: "'v state \<Rightarrow> producer \<Rightarrow> nat" where
  "valueVersion_of s q =
     (case q of V j \<Rightarrow> v_valueVersion (valuePipelines s j) | P i \<Rightarrow> p_valueVersion (pipelines s i))"

definition value_of :: "'v state \<Rightarrow> producer \<Rightarrow> 'v jsval" where
  "value_of s q =
     (case q of V j \<Rightarrow> v_value (valuePipelines s j) | P i \<Rightarrow> p_value (pipelines s i))"

definition upd_value :: "nat \<Rightarrow> ('v ValuePipeline \<Rightarrow> 'v ValuePipeline) \<Rightarrow> 'v state \<Rightarrow> 'v state" where
  "upd_value j f s = s\<lparr>valuePipelines := (valuePipelines s)(j := f (valuePipelines s j))\<rparr>"

definition upd_pipeline :: "nat \<Rightarrow> ('v Pipeline \<Rightarrow> 'v Pipeline) \<Rightarrow> 'v state \<Rightarrow> 'v state" where
  "upd_pipeline i f s = s\<lparr>pipelines := (pipelines s)(i := f (pipelines s i))\<rparr>"

definition upd_consumers :: "producer \<Rightarrow> (nat edges \<Rightarrow> nat edges) \<Rightarrow> 'v state \<Rightarrow> 'v state" where
  "upd_consumers q f s =
     (case q of
        V j \<Rightarrow> upd_value j (\<lambda>v. v\<lparr>v_consumers := f (v_consumers v)\<rparr>) s
      | P i \<Rightarrow> upd_pipeline i (\<lambda>p. p\<lparr>p_consumers := f (p_consumers p)\<rparr>) s)"

definition upd_producers :: "nat \<Rightarrow> (producer edges \<Rightarrow> producer edges) \<Rightarrow> 'v state \<Rightarrow> 'v state" where
  "upd_producers i f s = upd_pipeline i (\<lambda>p. p\<lparr>p_producers := f (p_producers p)\<rparr>) s"

section \<open>Results\<close>

text \<open>
  A call returns a value and the state it leaves (\<open>Ok\<close>), or throws and leaves a state
  (\<open>Err\<close>: an exception undoes nothing). \<open>OutOfFuel\<close> is the answer of the model when the
  calls nest deeper than the fuel it was given; it stands for no behaviour of the code.
\<close>

datatype ('a, 'v) result = OutOfFuel | Err error "'v state" | Ok 'a "'v state"

definition and_then :: "('a, 'v) result \<Rightarrow> ('a \<Rightarrow> 'v state \<Rightarrow> ('b, 'v) result) \<Rightarrow> ('b, 'v) result" where
  "and_then r f = (case r of OutOfFuel \<Rightarrow> OutOfFuel | Err e s \<Rightarrow> Err e s | Ok x s \<Rightarrow> f x s)"

text \<open>\<open>try { r } try_finally { f }\<close>, for an \<open>f\<close> that cannot throw.\<close>

definition try_finally :: "('a, 'v) result \<Rightarrow> ('v state \<Rightarrow> 'v state) \<Rightarrow> ('a, 'v) result" where
  "try_finally r f = (case r of OutOfFuel \<Rightarrow> OutOfFuel | Err e s \<Rightarrow> Err e (f s) | Ok x s \<Rightarrow> Ok x (f s))"

text \<open>\<open>try { r } catch (e) { h e }\<close>.\<close>

definition try_catch ::
  "('a, 'v) result \<Rightarrow> (error \<Rightarrow> 'v state \<Rightarrow> ('a, 'v) result) \<Rightarrow> ('a, 'v) result" where
  "try_catch r h = (case r of OutOfFuel \<Rightarrow> OutOfFuel | Err e s \<Rightarrow> h e s | Ok x s \<Rightarrow> Ok x s)"

section \<open>The engine\<close>

definition setActiveConsumer :: "nat option \<Rightarrow> 'v state \<Rightarrow> nat option \<times> 'v state" where
  "setActiveConsumer consumer s = (activeConsumer s, s\<lparr>activeConsumer := consumer\<rparr>)"

definition producerAccessed :: "producer \<Rightarrow> 'v state \<Rightarrow> 'v state" where
  "producerAccessed producer s =
     (case activeConsumer s of
        None \<Rightarrow> s
      | Some c \<Rightarrow>
          let s1 = upd_consumers producer
                     (\<lambda>e. edges_set (field_ref e) e c (p_trackingVersion (pipelines s c))) s;
              s2 = upd_consumers producer upgrade s1;
              s3 = upd_producers c
                     (\<lambda>e. edges_set (field_ref e) e producer (valueVersion_of s2 producer)) s2
          in upd_producers c upgrade s3)"

text \<open>
  The methods and module functions below call each other, and nothing in the code
  bounds how deep. The model gives every call a fuel, one unit for each nested call:
  each function is first written over the record \<open>E\<close> of the functions it may call
  (those with one unit less), and \<open>engine\<close> ties the knot by recursion on the fuel.

  \<^item> \<open>checkForActuallyChangedValue\<close>, \<open>recomputeValue\<close>, \<open>notify\<close>: the methods of
    \<open>Pipeline\<close>, with the address of \<open>this\<close> as argument;
  \<^item> \<open>get_value\<close>: the getter \<open>value\<close> of both classes;
  \<^item> \<open>setValue\<close>: the method of \<open>ValuePipeline\<close>;
  \<^item> \<open>producerNotifyConsumers\<close>, \<open>consumerPollValueStatus\<close>, \<open>producerPollStatus\<close>: the
    module functions, with \<open>notifyLoop\<close> and \<open>pollLoop\<close> for their \<open>for\<close> loops;
  \<^item> \<open>run\<close>: user code.
\<close>

record 'v callees =
  e_checkForActuallyChangedValue :: "nat \<Rightarrow> 'v state \<Rightarrow> (unit, 'v) result"
  e_recomputeValue :: "nat \<Rightarrow> 'v state \<Rightarrow> (unit, 'v) result"
  e_get_value :: "producer \<Rightarrow> 'v state \<Rightarrow> ('v jsval, 'v) result"
  e_notify :: "nat \<Rightarrow> producer option \<Rightarrow> 'v state \<Rightarrow> (unit, 'v) result"
  e_setValue :: "nat \<Rightarrow> 'v jsval \<Rightarrow> 'v state \<Rightarrow> (unit, 'v) result"
  e_producerNotifyConsumers :: "producer \<Rightarrow> 'v state \<Rightarrow> (unit, 'v) result"
  e_notifyLoop :: "producer \<Rightarrow> mapref \<Rightarrow> nat iter \<Rightarrow> 'v state \<Rightarrow> (unit, 'v) result"
  e_consumerPollValueStatus :: "nat \<Rightarrow> stale \<Rightarrow> 'v state \<Rightarrow> (bool, 'v) result"
  e_pollLoop ::
    "nat \<Rightarrow> mapref \<Rightarrow> producer iter \<Rightarrow> producer option \<Rightarrow> 'v state \<Rightarrow> (bool, 'v) result"
  e_producerPollStatus :: "producer \<Rightarrow> nat option \<Rightarrow> 'v state \<Rightarrow> (bool, 'v) result"
  e_run :: "'v prog \<Rightarrow> 'v state \<Rightarrow> ('v jsval, 'v) result"

definition checkForActuallyChangedValue_body ::
  "'v callees \<Rightarrow> nat \<Rightarrow> 'v state \<Rightarrow> (unit, 'v) result" where
  "checkForActuallyChangedValue_body E i s =
     (if p_stale (pipelines s i) = StaleFalse then Ok () s
      else if p_value (pipelines s i) \<noteq> UNSET \<and> p_value (pipelines s i) \<noteq> COMPUTING
      then and_then (e_consumerPollValueStatus E i (p_stale (pipelines s i)) s)
             (\<lambda>depsChanged s1.
                if \<not> depsChanged
                then Ok () (upd_pipeline i (\<lambda>p. p\<lparr>p_stale := StaleFalse\<rparr>) s1)
                else e_recomputeValue E i s1)
      else e_recomputeValue E i s)"

definition recomputeValue_body ::
  "'v callees \<Rightarrow> nat \<Rightarrow> 'v state \<Rightarrow> (unit, 'v) result" where
  "recomputeValue_body E i s =
     (if p_value (pipelines s i) = COMPUTING then Err Circular s
      else
        let oldValue = p_value (pipelines s i);
            s1 = upd_pipeline i (\<lambda>p. p\<lparr>p_value := COMPUTING\<rparr>) s;
            s2 = upd_pipeline i (\<lambda>p. p\<lparr>p_trackingVersion := p_trackingVersion p + 1\<rparr>) s1;
            prevConsumer = fst (setActiveConsumer (Some i) s2);
            s3 = snd (setActiveConsumer (Some i) s2);
            s4 = s3\<lparr>calculationsCount := calculationsCount s3 + 1\<rparr>
        in and_then
             (try_finally (e_run E (p_calculate (pipelines s4 i)) s4)
                (\<lambda>s5. snd (setActiveConsumer prevConsumer s5)))
             (\<lambda>newValue s6.
                let s7 = upd_pipeline i (\<lambda>p. p\<lparr>p_stale := StaleFalse\<rparr>) s6
                in if newValue = oldValue
                   then Ok () (upd_pipeline i (\<lambda>p. p\<lparr>p_value := oldValue\<rparr>) s7)
                   else Ok () (upd_pipeline i
                                 (\<lambda>p. p\<lparr>p_value := newValue,
                                         p_valueVersion := p_valueVersion p + 1\<rparr>) s7)))"

definition get_value_body ::
  "'v callees \<Rightarrow> producer \<Rightarrow> 'v state \<Rightarrow> ('v jsval, 'v) result" where
  "get_value_body E q s =
     (case q of
        P i \<Rightarrow>
          and_then (e_checkForActuallyChangedValue E i s)
            (\<lambda>_ s1. let s2 = producerAccessed (P i) s1 in Ok (p_value (pipelines s2 i)) s2)
      | V j \<Rightarrow>
          (let s1 = producerAccessed (V j) s in Ok (v_value (valuePipelines s1 j)) s1))"

definition notify_body ::
  "'v callees \<Rightarrow> nat \<Rightarrow> producer option \<Rightarrow> 'v state \<Rightarrow> (unit, 'v) result" where
  "notify_body E i notifier s =
     (if p_stale (pipelines s i) \<noteq> StaleFalse then Ok () s
      else if p_value (pipelines s i) = COMPUTING then Err ChangedWhileCalculating s
      else
        let s1 = upd_pipeline i
                   (\<lambda>p. p\<lparr>p_stale := (case notifier of None \<Rightarrow> StaleTrue
                                                      | Some q \<Rightarrow> StaleBy q)\<rparr>) s
        in e_producerNotifyConsumers E (P i) s1)"

definition setValue_body ::
  "'v callees \<Rightarrow> nat \<Rightarrow> 'v jsval \<Rightarrow> 'v state \<Rightarrow> (unit, 'v) result" where
  "setValue_body E j newValue s =
     (if newValue \<noteq> v_value (valuePipelines s j)
      then
        let s1 = upd_value j (\<lambda>v. v\<lparr>v_value := newValue\<rparr>) s;
            s2 = upd_value j (\<lambda>v. v\<lparr>v_valueVersion := v_valueVersion v + 1\<rparr>) s1
        in e_producerNotifyConsumers E (V j) s2
      else Ok () s)"

definition producerNotifyConsumers_body ::
  "'v callees \<Rightarrow> producer \<Rightarrow> 'v state \<Rightarrow> (unit, 'v) result" where
  "producerNotifyConsumers_body E producer s =
     (let consumers = field_ref (consumers_of s producer)
      in e_notifyLoop E producer consumers
           (iter_start consumers (consumers_of s producer)) s)"

text \<open>
  One turn of the loop of \<open>producerNotifyConsumers\<close>; \<open>consumers\<close> is the map object the
  loop runs over and \<open>it\<close> its iterator.
\<close>

definition notifyLoop_body ::
  "'v callees \<Rightarrow> producer \<Rightarrow> mapref \<Rightarrow> nat iter \<Rightarrow> 'v state \<Rightarrow> (unit, 'v) result" where
  "notifyLoop_body E producer consumers it s =
     (case iter_next it (consumers_of s producer) of
        None \<Rightarrow> Ok () s
      | Some ((consumerRef, trackingVersion), it') \<Rightarrow>
          if p_reclaimed (pipelines s consumerRef)
             \<or> p_trackingVersion (pipelines s consumerRef) \<noteq> trackingVersion
          then
            let s1 = upd_consumers producer (\<lambda>e. edges_delete consumers e consumerRef) s;
                s2 = (if p_reclaimed (pipelines s1 consumerRef) then s1
                      else upd_producers consumerRef
                             (\<lambda>e. edges_delete (field_ref e) e producer) s1)
            in e_notifyLoop E producer consumers it' s2
          else
            and_then (e_notify E consumerRef (Some producer) s)
              (\<lambda>_ s1. e_notifyLoop E producer consumers it' s1))"

definition consumerPollValueStatus_body ::
  "'v callees \<Rightarrow> nat \<Rightarrow> stale \<Rightarrow> 'v state \<Rightarrow> (bool, 'v) result" where
  "consumerPollValueStatus_body E consumer notifier s =
     (let producers = field_ref (p_producers (pipelines s consumer));
          loop = (\<lambda>skipProducer s1.
                    e_pollLoop E consumer producers
                      (iter_start producers (p_producers (pipelines s1 consumer)))
                      skipProducer s1)
      in case notifier of
           StaleBy q \<Rightarrow>
             (let valueVersion = edges_get producers (p_producers (pipelines s consumer)) q;
                  atTrackingVersion =
                    edges_get (field_ref (consumers_of s q)) (consumers_of s q) consumer;
                  rest = (\<lambda>s1.
                            if edges_size producers (p_producers (pipelines s1 consumer)) = 1
                            then Ok False s1
                            else loop (Some q) s1)
              in if atTrackingVersion = Some (p_trackingVersion (pipelines s consumer))
                 then and_then (e_producerPollStatus E q valueVersion s)
                        (\<lambda>changed s1. if changed then Ok True s1 else rest s1)
                 else rest s)
         | _ \<Rightarrow> loop None s)"

text \<open>One turn of the loop of \<open>consumerPollValueStatus\<close>.\<close>

definition pollLoop_body ::
  "'v callees \<Rightarrow> nat \<Rightarrow> mapref \<Rightarrow> producer iter \<Rightarrow> producer option \<Rightarrow> 'v state
     \<Rightarrow> (bool, 'v) result" where
  "pollLoop_body E consumer producers it skipProducer s =
     (case iter_next it (p_producers (pipelines s consumer)) of
        None \<Rightarrow> Ok False s
      | Some ((producer, valueVersion), it') \<Rightarrow>
          if Some producer = skipProducer
          then e_pollLoop E consumer producers it' skipProducer s
          else
            let atTrackingVersion =
                  edges_get (field_ref (consumers_of s producer)) (consumers_of s producer)
                    consumer
            in if atTrackingVersion \<noteq> Some (p_trackingVersion (pipelines s consumer))
               then
                 let s1 = upd_producers consumer (\<lambda>e. edges_delete producers e producer) s;
                     s2 = upd_consumers producer
                            (\<lambda>e. edges_delete (field_ref e) e consumer) s1
                 in e_pollLoop E consumer producers it' skipProducer s2
               else
                 and_then (e_producerPollStatus E producer (Some valueVersion) s)
                   (\<lambda>changed s1.
                      if changed then Ok True s1
                      else e_pollLoop E consumer producers it' skipProducer s1))"

definition producerPollStatus_body ::
  "'v callees \<Rightarrow> producer \<Rightarrow> nat option \<Rightarrow> 'v state \<Rightarrow> (bool, 'v) result" where
  "producerPollStatus_body E producer lastSeenValueVersion s =
     (if Some (valueVersion_of s producer) \<noteq> lastSeenValueVersion then Ok True s
      else
        and_then (case producer of
                    V j \<Rightarrow> Ok () s
                  | P i \<Rightarrow> e_checkForActuallyChangedValue E i s)
          (\<lambda>_ s1. Ok (Some (valueVersion_of s1 producer) \<noteq> lastSeenValueVersion) s1))"

definition run_body :: "'v callees \<Rightarrow> 'v prog \<Rightarrow> 'v state \<Rightarrow> ('v jsval, 'v) result" where
  "run_body E c s =
     (case c of
        Return x \<Rightarrow> Ok x s
      | Throw \<Rightarrow> Err Thrown s
      | Read q k \<Rightarrow> and_then (e_get_value E q s) (\<lambda>x s1. e_run E (k x) s1)
      | Write j x k \<Rightarrow> and_then (e_setValue E j x s) (\<lambda>_ s1. e_run E k s1)
      | Catch c1 h \<Rightarrow> try_catch (e_run E c1 s) (\<lambda>e s1. e_run E (h e) s1))"

primrec engine :: "nat \<Rightarrow> 'v callees" where
  "engine 0 =
     \<lparr>e_checkForActuallyChangedValue = (\<lambda>i s. OutOfFuel),
      e_recomputeValue = (\<lambda>i s. OutOfFuel),
      e_get_value = (\<lambda>q s. OutOfFuel),
      e_notify = (\<lambda>i notifier s. OutOfFuel),
      e_setValue = (\<lambda>j x s. OutOfFuel),
      e_producerNotifyConsumers = (\<lambda>q s. OutOfFuel),
      e_notifyLoop = (\<lambda>q r it s. OutOfFuel),
      e_consumerPollValueStatus = (\<lambda>i notifier s. OutOfFuel),
      e_pollLoop = (\<lambda>i r it skip s. OutOfFuel),
      e_producerPollStatus = (\<lambda>q v s. OutOfFuel),
      e_run = (\<lambda>c s. OutOfFuel)\<rparr>"
| "engine (Suc n) =
     \<lparr>e_checkForActuallyChangedValue = checkForActuallyChangedValue_body (engine n),
      e_recomputeValue = recomputeValue_body (engine n),
      e_get_value = get_value_body (engine n),
      e_notify = notify_body (engine n),
      e_setValue = setValue_body (engine n),
      e_producerNotifyConsumers = producerNotifyConsumers_body (engine n),
      e_notifyLoop = notifyLoop_body (engine n),
      e_consumerPollValueStatus = consumerPollValueStatus_body (engine n),
      e_pollLoop = pollLoop_body (engine n),
      e_producerPollStatus = producerPollStatus_body (engine n),
      e_run = run_body (engine n)\<rparr>"

abbreviation "checkForActuallyChangedValue n \<equiv> e_checkForActuallyChangedValue (engine n)"
abbreviation "recomputeValue n \<equiv> e_recomputeValue (engine n)"
abbreviation "get_value n \<equiv> e_get_value (engine n)"
abbreviation "notify n \<equiv> e_notify (engine n)"
abbreviation "setValue n \<equiv> e_setValue (engine n)"
abbreviation "producerNotifyConsumers n \<equiv> e_producerNotifyConsumers (engine n)"
abbreviation "notifyLoop n \<equiv> e_notifyLoop (engine n)"
abbreviation "consumerPollValueStatus n \<equiv> e_consumerPollValueStatus (engine n)"
abbreviation "pollLoop n \<equiv> e_pollLoop (engine n)"
abbreviation "producerPollStatus n \<equiv> e_producerPollStatus (engine n)"
abbreviation "run n \<equiv> e_run (engine n)"

text \<open>
  The two other methods of \<open>ValuePipeline\<close>, with their callbacks as user code: what
  \<open>updater\<close> returns is the new value; what \<open>mutator\<close> returns is dropped.
\<close>

definition updateValue ::
  "nat \<Rightarrow> nat \<Rightarrow> ('v jsval \<Rightarrow> 'v prog) \<Rightarrow> 'v state \<Rightarrow> (unit, 'v) result" where
  "updateValue n j updater s =
     and_then (run n (updater (v_value (valuePipelines s j))) s)
       (\<lambda>newValue s1. setValue n j newValue s1)"

definition mutateValue ::
  "nat \<Rightarrow> nat \<Rightarrow> ('v jsval \<Rightarrow> 'v prog) \<Rightarrow> 'v state \<Rightarrow> (unit, 'v) result" where
  "mutateValue n j mutator s =
     and_then (run n (mutator (v_value (valuePipelines s j))) s)
       (\<lambda>_ s1.
          let s2 = upd_value j (\<lambda>v. v\<lparr>v_valueVersion := v_valueVersion v + 1\<rparr>) s1
          in producerNotifyConsumers n (V j) s2)"

section \<open>Top-level operations\<close>

text \<open>
  What the host program can do with the objects between two quiescent points: read a
  \<open>value\<close>, or call one of the three writing methods of a \<open>ValuePipeline\<close>.
  \<open>Reclaim\<close> is the garbage collector taking a \<open>Pipeline\<close> away.
\<close>

datatype 'v operation =
    GetValue producer
  | SetValue nat "'v jsval"
  | UpdateValue nat "'v jsval \<Rightarrow> 'v prog"
  | MutateValue nat "'v jsval \<Rightarrow> 'v prog"
  | Reclaim nat

definition perform :: "nat \<Rightarrow> 'v operation \<Rightarrow> 'v state \<Rightarrow> ('v jsval option, 'v) result" where
  "perform n operation s =
     (case operation of
        GetValue q \<Rightarrow> and_then (get_value n q s) (\<lambda>x s1. Ok (Some x) s1)
      | SetValue j x \<Rightarrow> and_then (setValue n j x s) (\<lambda>_ s1. Ok None s1)
      | UpdateValue j updater \<Rightarrow> and_then (updateValue n j updater s) (\<lambda>_ s1. Ok None s1)
      | MutateValue j mutator \<Rightarrow> and_then (mutateValue n j mutator s) (\<lambda>_ s1. Ok None s1)
      | Reclaim i \<Rightarrow> Ok None (upd_pipeline i (\<lambda>p. p\<lparr>p_reclaimed := True\<rparr>) s))"

text \<open>
  A sequence of operations; the host goes on after an operation that threw. The result
  is \<open>None\<close> when the fuel did not suffice for one of them.
\<close>

fun perform_all :: "nat \<Rightarrow> 'v operation list \<Rightarrow> 'v state \<Rightarrow> 'v state option" where
  "perform_all n [] s = Some s"
| "perform_all n (operation # rest) s =
     (case perform n operation s of
        OutOfFuel \<Rightarrow> None
      | Err e s1 \<Rightarrow> perform_all n rest s1
      | Ok x s1 \<Rightarrow> perform_all n rest s1)"

text \<open>A state in which nothing has been read yet: the objects as their constructors leave them.\<close>

definition initial_state :: "(nat \<Rightarrow> 'v jsval) \<Rightarrow> (nat \<Rightarrow> 'v prog) \<Rightarrow> 'v state" where
  "initial_state leaf calc =
     \<lparr>valuePipelines = (\<lambda>j. ValuePipeline_new (leaf j)),
      pipelines = (\<lambda>i. Pipeline_new (calc i)),
      activeConsumer = None,
      calculationsCount = 0\<rparr>"

section \<open>Predicates on results\<close>

text \<open>\<open>res_all Q r\<close>: the state that \<open>r\<close> leaves, if it leaves one, satisfies \<open>Q\<close>.\<close>

fun res_all :: "('v state \<Rightarrow> bool) \<Rightarrow> ('a, 'v) result \<Rightarrow> bool" where
  "res_all Q OutOfFuel = True"
| "res_all Q (Err e s) = Q s"
| "res_all Q (Ok x s) = Q s"

text \<open>
  \<open>res_rel Rok Rerr s r\<close>: if \<open>r\<close>, started in \<open>s\<close>, returns, it leaves a state related to
  \<open>s\<close> by \<open>Rok\<close>; if it throws, one related to \<open>s\<close> by \<open>Rerr\<close>.
\<close>

fun res_rel ::
  "('v state \<Rightarrow> 'v state \<Rightarrow> bool) \<Rightarrow> ('v state \<Rightarrow> 'v state \<Rightarrow> bool) \<Rightarrow> 'v state
     \<Rightarrow> ('a, 'v) result \<Rightarrow> bool" where
  "res_rel Rok Rerr s OutOfFuel = True"
| "res_rel Rok Rerr s (Err e s') = Rerr s s'"
| "res_rel Rok Rerr s (Ok x s') = Rok s s'"

definition good2 ::
  "('v state \<Rightarrow> 'v state \<Rightarrow> bool) \<Rightarrow> ('v state \<Rightarrow> 'v state \<Rightarrow> bool) \<Rightarrow> 'v callees \<Rightarrow> bool" where
  "good2 Rok Rerr E \<longleftrightarrow>
     (\<forall>i s. res_rel Rok Rerr s (e_checkForActuallyChangedValue E i s))
   \<and> (\<forall>i s. res_rel Rok Rerr s (e_recomputeValue E i s))
   \<and> (\<forall>q s. res_rel Rok Rerr s (e_get_value E q s))
   \<and> (\<forall>i x s. res_rel Rok Rerr s (e_notify E i x s))
   \<and> (\<forall>i x s. res_rel Rok Rerr s (e_setValue E i x s))
   \<and> (\<forall>q s. res_rel Rok Rerr s (e_producerNotifyConsumers E q s))
   \<and> (\<forall>q r it s. res_rel Rok Rerr s (e_notifyLoop E q r it s))
   \<and> (\<forall>i x s. res_rel Rok Rerr s (e_consumerPollValueStatus E i x s))
   \<and> (\<forall>i r it sk s. res_rel Rok Rerr s (e_pollLoop E i r it sk s))
   \<and> (\<forall>q x s. res_rel Rok Rerr s (e_producerPollStatus E q x s))
   \<and> (\<forall>c s. res_rel Rok Rerr s (e_run E c s))"

text \<open>
  The state in which \<open>recomputeValue\<close> calls \<open>calculate()\<close>, and the state it returns in
  when \<open>calculate()\<close> has returned \<open>newValue\<close> and \<open>activeConsumer\<close> has been put back.
\<close>

definition recompute_begin :: "nat \<Rightarrow> 'v state \<Rightarrow> 'v state" where
  "recompute_begin i s =
     (upd_pipeline i (\<lambda>p. p\<lparr>p_trackingVersion := p_trackingVersion p + 1\<rparr>)
        (upd_pipeline i (\<lambda>p. p\<lparr>p_value := COMPUTING\<rparr>) s))
     \<lparr>activeConsumer := Some i, calculationsCount := calculationsCount s + 1\<rparr>"

definition recompute_finish :: "nat \<Rightarrow> 'v jsval \<Rightarrow> 'v jsval \<Rightarrow> 'v state \<Rightarrow> 'v state" where
  "recompute_finish i oldValue newValue s =
     (let s1 = upd_pipeline i (\<lambda>p. p\<lparr>p_stale := StaleFalse\<rparr>) s
      in if newValue = oldValue
         then upd_pipeline i (\<lambda>p. p\<lparr>p_value := oldValue\<rparr>) s1
         else upd_pipeline i
                (\<lambda>p. p\<lparr>p_value := newValue, p_valueVersion := p_valueVersion p + 1\<rparr>) s1)"

text \<open>
  What every call leaves as it is or only moves one way, whether it returns or throws:
  \<open>activeConsumer\<close>, the methods \<open>calculate()\<close>, the counters (they never go down), and
  the fields \<open>_value\<close>, \<open>stale\<close>, \<open>valueVersion\<close> and \<open>trackingVersion\<close> of every
  pipeline whose \<open>_value\<close> is \<open>COMPUTING\<close>.
\<close>

definition frame :: "'v state \<Rightarrow> 'v state \<Rightarrow> bool" where
  "frame s s' \<longleftrightarrow>
     activeConsumer s' = activeConsumer s
   \<and> calculationsCount s \<le> calculationsCount s'
   \<and> (\<forall>j. v_valueVersion (valuePipelines s j) \<le> v_valueVersion (valuePipelines s' j))
   \<and> (\<forall>i. p_valueVersion (pipelines s i) \<le> p_valueVersion (pipelines s' i)
          \<and> p_trackingVersion (pipelines s i) \<le> p_trackingVersion (pipelines s' i)
          \<and> p_calculate (pipelines s' i) = p_calculate (pipelines s i))
   \<and> (\<forall>i. p_value (pipelines s i) = COMPUTING \<longrightarrow>
          p_value (pipelines s' i) = COMPUTING
          \<and> p_stale (pipelines s' i) = p_stale (pipelines s i)
          \<and> p_valueVersion (pipelines s' i) = p_valueVersion (pipelines s i)
          \<and> p_trackingVersion (pipelines s' i) = p_trackingVersion (pipelines s i))"

section \<open>Observations and example graphs\<close>

fun final :: "('a, 'v) result \<Rightarrow> 'v state option" where
  "final OutOfFuel = None"
| "final (Err e s) = Some s"
| "final (Ok x s) = Some s"

fun returned :: "('a, 'v) result \<Rightarrow> 'a option" where
  "returned (Ok x s) = Some x"
| "returned r = None"

fun thrown :: "('a, 'v) result \<Rightarrow> error option" where
  "thrown (Err e s) = Some e"
| "thrown r = None"

text \<open>
  The pipes of the benchmark hold the numbers 0 and 1 and no other: a leaf is made with
  \<open>getRandomInteger(MOD_FACTOR)\<close> and set to \<open>(value + 1) % MOD_FACTOR\<close>, and a \<open>MiddlePipe\<close>
  holds a sum of such numbers modulo \<open>MOD_FACTOR\<close>, which is 2. The user values of the
  examples are these two numbers.
\<close>

type_synonym bit = "1 word"

text \<open>
  The \<open>calculate()\<close> of the benchmark's \<open>MiddlePipe\<close>: the sum of the values of \<open>deps\<close>,
  modulo \<open>MOD_FACTOR\<close>. The sum of the values of an array of pipes that hold 0 or 1 is
  a natural number, at most the length of the array, on which \<open>+\<close> is exact and \<open>%\<close> is
  the remainder. Adding a symbol to a number throws a \<open>TypeError\<close>.
\<close>

definition MOD_FACTOR :: nat where
  "MOD_FACTOR = 2"

fun MiddlePipe_sum :: "producer list \<Rightarrow> nat \<Rightarrow> bit prog" where
  "MiddlePipe_sum [] acc = Return (Val (of_nat (acc mod MOD_FACTOR)))"
| "MiddlePipe_sum (d # deps) acc =
     Read d (\<lambda>x. case x of Val v \<Rightarrow> MiddlePipe_sum deps (acc + unat v) | _ \<Rightarrow> Throw)"

definition MiddlePipe :: "producer list \<Rightarrow> bit prog" where
  "MiddlePipe deps = MiddlePipe_sum deps 0"

text \<open>Every leaf holds 0 and the \<open>calculate()\<close> of every pipeline throws.\<close>

definition throwing_graph :: "bit state" where
  "throwing_graph = initial_state (\<lambda>j. Val 0) (\<lambda>i. Throw)"

text \<open>Scenario S1 of the specification: \<open>c = (a + b) mod 2\<close> over two leaves holding 0.\<close>

definition sum_graph :: "bit state" where
  "sum_graph = initial_state (\<lambda>j. Val 0) (\<lambda>i. MiddlePipe [V 0, V 1])"

text \<open>The entries of the map that a field \<open>consumers\<close> or \<open>producers\<close> holds, in order.\<close>

definition entries :: "'k edges \<Rightarrow> ('k \<times> nat) list" where
  "entries e =
     (case hashed e of
        None \<Rightarrow> toTuples (internalArray (linear e))
      | Some m \<Rightarrow> toTuples m)"

text \<open>The entries that an iterator has yet to yield.\<close>

definition remaining :: "'k iter \<Rightarrow> 'k edges \<Rightarrow> ('k \<times> nat) list" where
  "remaining it e =
     (case it of Snapshot xs \<Rightarrow> xs | Live k \<Rightarrow> toTuples (drop k (the_Map e)))"

text \<open>
  An entry of a \<open>consumers\<close> map that \<open>producerNotifyConsumers\<close> takes for a live edge:
  the consumer has not been reclaimed and is still at the recorded \<open>trackingVersion\<close>.
\<close>

definition live_edge :: "'v state \<Rightarrow> nat \<times> nat \<Rightarrow> bool" where
  "live_edge s e \<longleftrightarrow>
     \<not> p_reclaimed (pipelines s (fst e)) \<and> p_trackingVersion (pipelines s (fst e)) = snd e"

text \<open>
  What notifying the consumers of \<open>q\<close> leaves as it is: everything but the edge maps
  and the \<open>stale\<close> fields that were \<open>false\<close>; and when \<open>q\<close> is a \<open>Pipeline\<close>, every
  \<open>ValuePipeline\<close>.
\<close>

definition notified :: "producer \<Rightarrow> 'v state \<Rightarrow> 'v state \<Rightarrow> bool" where
  "notified q s s' \<longleftrightarrow>
     activeConsumer s' = activeConsumer s \<and> calculationsCount s' = calculationsCount s
   \<and> (\<forall>j. v_value (valuePipelines s' j) = v_value (valuePipelines s j)
          \<and> v_valueVersion (valuePipelines s' j) = v_valueVersion (valuePipelines s j))
   \<and> (\<forall>i. p_value (pipelines s' i) = p_value (pipelines s i)
          \<and> p_valueVersion (pipelines s' i) = p_valueVersion (pipelines s i)
          \<and> p_trackingVersion (pipelines s' i) = p_trackingVersion (pipelines s i)
          \<and> p_reclaimed (pipelines s' i) = p_reclaimed (pipelines s i)
          \<and> p_calculate (pipelines s' i) = p_calculate (pipelines s i)
          \<and> (p_stale (pipelines s i) \<noteq> StaleFalse \<longrightarrow>
                p_stale (pipelines s' i) = p_stale (pipelines s i)))
   \<and> (case q of V j \<Rightarrow> True | P i \<Rightarrow> valuePipelines s' = valuePipelines s)"

text \<open>The state of \<open>sum_graph\<close> after \<open>c\<close> has been read once.\<close>

definition sum_graph_read :: "bit state" where
  "sum_graph_read = (case get_value 8 (P 0) sum_graph of Ok x s \<Rightarrow> s | _ \<Rightarrow> sum_graph)"

text \<open>What a producer holds after a call, when the call has left a state.\<close>

definition value_after :: "producer \<Rightarrow> ('a, 'v) result \<Rightarrow> 'v jsval option" where
  "value_after q r = map_option (\<lambda>s. value_of s q) (final r)"

definition valueVersion_after :: "producer \<Rightarrow> ('a, 'v) result \<Rightarrow> nat option" where
  "valueVersion_after q r = map_option (\<lambda>s. valueVersion_of s q) (final r)"

definition calculations_after :: "('a, 'v) result \<Rightarrow> nat option" where
  "calculations_after r = map_option calculationsCount (final r)"

text \<open>
  Scenario S2 of the specification: after \<open>c\<close> has been read, \<open>a.setValue(1)\<close> and then
  \<open>a.setValue(0)\<close>.
\<close>

definition sum_graph_toggled :: "bit state" where
  "sum_graph_toggled =
     (case perform_all 8 [SetValue 0 (Val 1), SetValue 0 (Val 0)] sum_graph_read of
        Some s \<Rightarrow> s | None \<Rightarrow> sum_graph_read)"

text \<open>
  After \<open>c\<close> has been read in \<open>sum_graph\<close>: another pipeline \<open>d\<close> over the same leaves
  (address 1) is read, and \<open>a.setValue(0)\<close> is called, with the value \<open>a\<close> holds.
\<close>

definition sum_graph_read_both :: "bit state" where
  "sum_graph_read_both =
     (case perform_all 8 [GetValue (P 1), SetValue 0 (Val 0)] sum_graph_read of
        Some s \<Rightarrow> s | None \<Rightarrow> sum_graph_read)"

text \<open>
  A pipeline whose \<open>calculate()\<close> reads the leaf \<open>a\<close> and then sets it:
  \<open>c = Computed(() => { const x = a.value; a.setValue(1); return x })\<close>, and the state in
  which that \<open>setValue\<close> is called when \<open>c\<close> is read for the first time.
\<close>

definition writing_graph :: "bit state" where
  "writing_graph = initial_state (\<lambda>j. Val 0) (\<lambda>i. Read (V 0) (\<lambda>x. Write 0 (Val 1) (Return x)))"

definition writing_graph_reading :: "bit state" where
  "writing_graph_reading = producerAccessed (V 0) (recompute_begin 0 writing_graph)"

text \<open>No key occurs twice in a map, and no map of the state has a key twice.\<close>

definition distinct_keys :: "'k edges \<Rightarrow> bool" where
  "distinct_keys e \<longleftrightarrow>
     distinct (map fst (toTuples (internalArray (linear e))))
   \<and> distinct (map fst (toTuples (the_Map e)))"

definition wf_maps :: "'v state \<Rightarrow> bool" where
  "wf_maps s \<longleftrightarrow>
     (\<forall>j. distinct_keys (v_consumers (valuePipelines s j)))
   \<and> (\<forall>i. distinct_keys (p_consumers (pipelines s i)) \<and> distinct_keys (p_producers (pipelines s i)))"

text \<open>
  The test of \<open>consumerPollValueStatus\<close> for a dead edge from \<open>consumer\<close> to \<open>producer\<close>, and
  what its loop does with one: \<open>producers\<close> is the map the loop runs over.
\<close>

definition dead_edge :: "'v state \<Rightarrow> nat \<Rightarrow> producer \<Rightarrow> bool" where
  "dead_edge s consumer producer \<longleftrightarrow>
     edges_get (field_ref (consumers_of s producer)) (consumers_of s producer) consumer
       \<noteq> Some (p_trackingVersion (pipelines s consumer))"

definition unlink :: "mapref \<Rightarrow> nat \<Rightarrow> producer \<Rightarrow> 'v state \<Rightarrow> 'v state" where
  "unlink producers consumer producer s =
     upd_consumers producer (\<lambda>e. edges_delete (field_ref e) e consumer)
       (upd_producers consumer (\<lambda>e. edges_delete producers e producer) s)"

text \<open>Neither map holds the edge from \<open>consumer\<close> to \<open>producer\<close>.\<close>

definition unlinked :: "mapref \<Rightarrow> nat \<Rightarrow> producer \<Rightarrow> 'v state \<Rightarrow> bool" where
  "unlinked producers consumer producer s \<longleftrightarrow>
     edges_get producers (p_producers (pipelines s consumer)) producer = None
   \<and> edges_get (field_ref (consumers_of s producer)) (consumers_of s producer) consumer = None"

text \<open>
  A graph with a dependency that comes and goes (as in scenario S6): over the leaves
  \<open>cond\<close>, \<open>x\<close> and \<open>a\<close> (addresses 0, 1, 2), \<open>b = (a + a) mod 2\<close> (address 1) and
  \<open>out = cond === 1 ? (x, b) : b\<close> (address 0), which reads \<open>x\<close> only while \<open>cond\<close> is 1.
\<close>

definition dynamic_out :: "bit prog" where
  "dynamic_out =
     Read (V 0) (\<lambda>cond. if cond = Val 1 then Read (V 1) (\<lambda>x. Read (P 1) Return)
                          else Read (P 1) Return)"

definition dynamic_graph :: "bit state" where
  "dynamic_graph =
     initial_state (\<lambda>j. if j = 0 then Val 1 else Val 0)
       (\<lambda>i. if i = 0 then dynamic_out else MiddlePipe [V 2, V 2])"

text \<open>
  \<open>out\<close> is read, \<open>cond\<close> is set to 0, \<open>out\<close> is read again (it no longer reads \<open>x\<close>), and
  \<open>a\<close> is set to 1, which leaves \<open>b\<close> at 0.
\<close>

definition dynamic_graph_polled :: "bit state" where
  "dynamic_graph_polled =
     (case perform_all 12
             [GetValue (P 0), SetValue 0 (Val 0), GetValue (P 0), SetValue 2 (Val 1)]
             dynamic_graph of
        Some s \<Rightarrow> s | None \<Rightarrow> dynamic_graph)"

text \<open>A pipeline that has not been computed yet.\<close>

definition fresh :: "'v state \<Rightarrow> nat \<Rightarrow> bool" where
  "fresh s i \<longleftrightarrow> p_value (pipelines s i) = UNSET \<and> p_stale (pipelines s i) \<noteq> StaleFalse"

text \<open>Scenario S4: \<open>a = Computed(() => b.value); b = Computed(() => a.value)\<close>.\<close>

definition mutual_graph :: "bit state" where
  "mutual_graph =
     initial_state (\<lambda>j. Val 0) (\<lambda>i. if i = 0 then Read (P 1) Return else Read (P 0) Return)"



text \<open>
  A cycle beside a pipeline that can be computed: \<open>a = MiddlePipe([c, b])\<close>,
  \<open>b = Computed(() => a.value)\<close> and \<open>c = Computed(() => leaf.value)\<close> (addresses 0, 1, 2).
  \<open>side_graph_reading\<close> is the state in which the \<open>calculate()\<close> of \<open>a\<close>, called by the
  first read of \<open>a\<close>, has read \<open>c\<close> and goes on to read \<open>b\<close>.
\<close>

definition side_graph :: "bit state" where
  "side_graph =
     initial_state (\<lambda>j. Val 0)
       (\<lambda>i. if i = 0 then MiddlePipe [P 2, P 1]
            else if i = 1 then Read (P 0) Return
            else Read (V 0) Return)"

definition side_graph_reading :: "bit state" where
  "side_graph_reading =
     (case get_value 8 (P 2) (recompute_begin 0 side_graph) of Ok x s \<Rightarrow> s | _ \<Rightarrow> side_graph)"


text \<open>
  A graph in which a pipeline is read again while its producers are being polled. Over
  the leaves \<open>g\<close>, \<open>h\<close> and \<open>f\<close> (addresses 0, 1, 2), which hold 0:

  \<^item> \<open>m = Computed(() => { f.value; return 0 })\<close> (address 1);
  \<^item> \<open>p = Computed(() => { if (f.value === 1) { g.setValue(1); return i.value } return 0 })\<close>
    (address 2);
  \<^item> \<open>i\<close> (address 0) reads \<open>m\<close> and \<open>g\<close>; when \<open>g\<close> holds 1 it reads \<open>h\<close>, sets \<open>h\<close> to
    the other number and returns 1, and otherwise it returns \<open>p.value\<close>.

  In \<open>reentrant_graph_set\<close>, \<open>i\<close> has been read and \<open>f\<close> has then been set to 1.
\<close>

definition reentrant_graph :: "bit state" where
  "reentrant_graph =
     initial_state (\<lambda>j. Val 0)
       (\<lambda>i. if i = 0
            then Read (P 1) (\<lambda>x. Read (V 0) (\<lambda>y.
                   if y = Val 1
                   then Read (V 1) (\<lambda>w. Write 1 (if w = Val 0 then Val 1 else Val 0) (Return (Val 1)))
                   else Read (P 2) Return))
            else if i = 1 then Read (V 2) (\<lambda>a. Return (Val 0))
            else Read (V 2) (\<lambda>z. if z = Val 1 then Write 0 (Val 1) (Read (P 0) Return)
                                    else Return (Val 0)))"

definition reentrant_graph_set :: "bit state" where
  "reentrant_graph_set =
     (case perform_all 20 [GetValue (P 0), SetValue 2 (Val 1)] reentrant_graph of
        Some s \<Rightarrow> s | None \<Rightarrow> reentrant_graph)"

text \<open>
  The same graph with an \<open>i\<close> that reads itself: when \<open>g\<close> holds 1, \<open>i\<close> reads \<open>h\<close>; when that
  holds 1 it returns \<open>i.value\<close>, and otherwise it sets \<open>h\<close> to 1 and returns 1.
\<close>

definition reentrant_self_graph :: "bit state" where
  "reentrant_self_graph =
     initial_state (\<lambda>j. Val 0)
       (\<lambda>i. if i = 0
            then Read (P 1) (\<lambda>x. Read (V 0) (\<lambda>y.
                   if y = Val 1
                   then Read (V 1) (\<lambda>w. if w = Val 1 then Read (P 0) Return
                                          else Write 1 (Val 1) (Return (Val 1)))
                   else Read (P 2) Return))
            else if i = 1 then Read (V 2) (\<lambda>a. Return (Val 0))
            else Read (V 2) (\<lambda>z. if z = Val 1 then Write 0 (Val 1) (Read (P 0) Return)
                                    else Return (Val 0)))"

definition reentrant_self_graph_set :: "bit state" where
  "reentrant_self_graph_set =
     (case perform_all 20 [GetValue (P 0), SetValue 2 (Val 1)] reentrant_self_graph of
        Some s \<Rightarrow> s | None \<Rightarrow> reentrant_self_graph)"



section \<open>Observations for the correctness of reads\<close>

text \<open>
  What the field \<open>consumers\<close> or \<open>producers\<close> gives for a key, and whether the \<open>size\<close> of
  the \<open>LinearMap\<close> counts its entries.
\<close>

definition lookup :: "'k edges \<Rightarrow> 'k \<Rightarrow> nat option" where
  "lookup e k = edges_get (field_ref e) e k"

definition sized :: "'k edges \<Rightarrow> bool" where
  "sized e \<longleftrightarrow> size_field (linear e) = length (toTuples (internalArray (linear e)))"

text \<open>
  The two halves of an edge from the consumer \<open>c\<close> to the producer \<open>q\<close>: the
  \<open>valueVersion\<close> of \<open>q\<close> that \<open>c\<close> recorded when it read \<open>q\<close>, and the \<open>trackingVersion\<close> of
  \<open>c\<close> that \<open>q\<close> recorded. The edge is live when the latter is the \<open>trackingVersion\<close> \<open>c\<close>
  has now (the test of \<open>consumerPollValueStatus\<close> and \<open>producerNotifyConsumers\<close>).
\<close>

definition seen :: "'v state \<Rightarrow> nat \<Rightarrow> producer \<Rightarrow> nat option" where
  "seen s c q = lookup (p_producers (pipelines s c)) q"

definition tracked :: "'v state \<Rightarrow> producer \<Rightarrow> nat \<Rightarrow> nat option" where
  "tracked s q c = lookup (consumers_of s q) c"

definition live :: "'v state \<Rightarrow> nat \<Rightarrow> producer \<Rightarrow> bool" where
  "live s c q \<longleftrightarrow> tracked s q c = Some (p_trackingVersion (pipelines s c))"

text \<open>
  A producer that needs no work before it is read: a \<open>ValuePipeline\<close>, or a \<open>Pipeline\<close>
  whose \<open>stale\<close> is \<open>false\<close>. A pipeline is settled when it holds a user value.
\<close>

definition up_to_date :: "'v state \<Rightarrow> producer \<Rightarrow> bool" where
  "up_to_date s q = (case q of V j \<Rightarrow> True | P i \<Rightarrow> p_stale (pipelines s i) = StaleFalse)"

definition settled :: "'v state \<Rightarrow> nat \<Rightarrow> bool" where
  "settled s i \<longleftrightarrow> (\<exists>x. p_value (pipelines s i) = Val x)"

text \<open>
  C2 is about a read that comes back to a pipeline that is being computed. The calls of
  the engine through which a read goes are named by \<open>call\<close>, and \<open>arrives t s c\<close> says that
  the call \<open>c\<close>, made in the state \<open>s\<close>, comes to a call of \<open>recomputeValue\<close> on the
  pipeline \<open>t\<close> while the \<open>_value\<close> of \<open>t\<close> is \<open>COMPUTING\<close>: the place where \<open>recomputeValue\<close>
  throws \<open>Pipeline is circular\<close>. Every rule follows one function of the engine to one
  of the calls it makes, the calls it makes before having returned:

  \<^item> \<open>recomputeValue\<close> calls \<open>calculate()\<close>, whose reads and writes come one after the
    other; a \<open>try\<close> block of user code is left behind when its body has thrown, and no
    rule leads into its body;
  \<^item> the getter \<open>value\<close> of a pipeline calls \<open>checkForActuallyChangedValue\<close>, which calls
    \<open>recomputeValue\<close> at once for a stale pipeline that holds no user value, and
    otherwise \<open>consumerPollValueStatus\<close> and then, when that has returned \<open>true\<close>,
    \<open>recomputeValue\<close>;
  \<^item> \<open>consumerPollValueStatus\<close> calls \<open>producerPollStatus\<close> for the notifier, when the
    edge to it is live, and then for the live producers of its loop, one after the other
    while they return \<open>false\<close>;
  \<^item> \<open>producerPollStatus\<close> calls \<open>checkForActuallyChangedValue\<close> of a pipeline whose
    \<open>valueVersion\<close> is the one last seen.
\<close>

datatype 'v call =
    CheckForActuallyChangedValue nat
  | RecomputeValue nat
  | Get_value producer
  | ConsumerPollValueStatus nat stale
  | PollLoop nat mapref "producer iter" "producer option"
  | ProducerPollStatus producer "nat option"
  | Run "'v prog"

inductive arrives :: "nat \<Rightarrow> 'v state \<Rightarrow> 'v call \<Rightarrow> bool" for t :: nat where
  computing:
    "p_value (pipelines s t) = COMPUTING \<Longrightarrow> arrives t s (RecomputeValue t)"
| calculate:
    "p_value (pipelines s i) \<noteq> COMPUTING \<Longrightarrow>
     arrives t (recompute_begin i s) (Run (p_calculate (pipelines s i))) \<Longrightarrow>
     arrives t s (RecomputeValue i)"
| check_first:
    "p_stale (pipelines s i) \<noteq> StaleFalse \<Longrightarrow>
     p_value (pipelines s i) = UNSET \<or> p_value (pipelines s i) = COMPUTING \<Longrightarrow>
     arrives t s (RecomputeValue i) \<Longrightarrow>
     arrives t s (CheckForActuallyChangedValue i)"
| check_poll:
    "p_stale (pipelines s i) \<noteq> StaleFalse \<Longrightarrow>
     p_value (pipelines s i) \<noteq> UNSET \<Longrightarrow> p_value (pipelines s i) \<noteq> COMPUTING \<Longrightarrow>
     arrives t s (ConsumerPollValueStatus i (p_stale (pipelines s i))) \<Longrightarrow>
     arrives t s (CheckForActuallyChangedValue i)"
| check_changed:
    "p_stale (pipelines s i) \<noteq> StaleFalse \<Longrightarrow>
     p_value (pipelines s i) \<noteq> UNSET \<Longrightarrow> p_value (pipelines s i) \<noteq> COMPUTING \<Longrightarrow>
     consumerPollValueStatus n i (p_stale (pipelines s i)) s = Ok True s1 \<Longrightarrow>
     arrives t s1 (RecomputeValue i) \<Longrightarrow>
     arrives t s (CheckForActuallyChangedValue i)"
| get_value:
    "arrives t s (CheckForActuallyChangedValue i) \<Longrightarrow> arrives t s (Get_value (P i))"
| read:
    "arrives t s (Get_value q) \<Longrightarrow> arrives t s (Run (Read q k))"
| read_next:
    "get_value n q s = Ok x s1 \<Longrightarrow> arrives t s1 (Run (k x)) \<Longrightarrow> arrives t s (Run (Read q k))"
| write_next:
    "setValue n j x s = Ok u s1 \<Longrightarrow> arrives t s1 (Run k') \<Longrightarrow> arrives t s (Run (Write j x k'))"
| caught:
    "run n c s = Err e s1 \<Longrightarrow> arrives t s1 (Run (h e)) \<Longrightarrow> arrives t s (Run (Catch c h))"
| poll_producer:
    "Some (valueVersion_of s (P i)) = lastSeenValueVersion \<Longrightarrow>
     arrives t s (CheckForActuallyChangedValue i) \<Longrightarrow>
     arrives t s (ProducerPollStatus (P i) lastSeenValueVersion)"
| poll_notifier:
    "live s c q \<Longrightarrow> arrives t s (ProducerPollStatus q (seen s c q)) \<Longrightarrow>
     arrives t s (ConsumerPollValueStatus c (StaleBy q))"
| poll_rest:
    "live s c q \<Longrightarrow> producerPollStatus n q (seen s c q) s = Ok False s1 \<Longrightarrow>
     edges_size (field_ref (p_producers (pipelines s c))) (p_producers (pipelines s1 c)) \<noteq> 1 \<Longrightarrow>
     arrives t s1
       (PollLoop c (field_ref (p_producers (pipelines s c)))
          (iter_start (field_ref (p_producers (pipelines s c))) (p_producers (pipelines s1 c)))
          (Some q)) \<Longrightarrow>
     arrives t s (ConsumerPollValueStatus c (StaleBy q))"
| poll_rest_dead:
    "\<not> live s c q \<Longrightarrow>
     edges_size (field_ref (p_producers (pipelines s c))) (p_producers (pipelines s c)) \<noteq> 1 \<Longrightarrow>
     arrives t s
       (PollLoop c (field_ref (p_producers (pipelines s c)))
          (iter_start (field_ref (p_producers (pipelines s c))) (p_producers (pipelines s c)))
          (Some q)) \<Longrightarrow>
     arrives t s (ConsumerPollValueStatus c (StaleBy q))"
| poll_all:
    "notifier = StaleTrue \<or> notifier = StaleFalse \<Longrightarrow>
     arrives t s
       (PollLoop c (field_ref (p_producers (pipelines s c)))
          (iter_start (field_ref (p_producers (pipelines s c))) (p_producers (pipelines s c)))
          None) \<Longrightarrow>
     arrives t s (ConsumerPollValueStatus c notifier)"
| loop_skip:
    "iter_next it (p_producers (pipelines s c)) = Some ((q, v), it') \<Longrightarrow> Some q = skipProducer \<Longrightarrow>
     arrives t s (PollLoop c producers it' skipProducer) \<Longrightarrow>
     arrives t s (PollLoop c producers it skipProducer)"
| loop_dead:
    "iter_next it (p_producers (pipelines s c)) = Some ((q, v), it') \<Longrightarrow> Some q \<noteq> skipProducer \<Longrightarrow>
     \<not> live s c q \<Longrightarrow>
     arrives t (unlink producers c q s) (PollLoop c producers it' skipProducer) \<Longrightarrow>
     arrives t s (PollLoop c producers it skipProducer)"
| loop_poll:
    "iter_next it (p_producers (pipelines s c)) = Some ((q, v), it') \<Longrightarrow> Some q \<noteq> skipProducer \<Longrightarrow>
     live s c q \<Longrightarrow> arrives t s (ProducerPollStatus q (Some v)) \<Longrightarrow>
     arrives t s (PollLoop c producers it skipProducer)"
| loop_next:
    "iter_next it (p_producers (pipelines s c)) = Some ((q, v), it') \<Longrightarrow> Some q \<noteq> skipProducer \<Longrightarrow>
     live s c q \<Longrightarrow> producerPollStatus n q (Some v) s = Ok False s1 \<Longrightarrow>
     arrives t s1 (PollLoop c producers it' skipProducer) \<Longrightarrow>
     arrives t s (PollLoop c producers it skipProducer)"



text \<open>
  The plainest case is a cycle of pipelines that have not been computed yet.
  \<open>leads_to s c t\<close>: the code \<open>c\<close>, run in \<open>s\<close>, reads producers that are up to date and then
  reads the pipeline \<open>t\<close>. \<open>cycle_chain s xs t\<close>: the \<open>calculate()\<close> of each of the pipelines
  \<open>xs\<close> leads to the next, and that of the last to \<open>t\<close>.
\<close>

primrec leads_to :: "'v state \<Rightarrow> 'v prog \<Rightarrow> nat \<Rightarrow> bool" where
  "leads_to s (Return x) t = False"
| "leads_to s Throw t = False"
| "leads_to s (Read q k) t = (q = P t \<or> (up_to_date s q \<and> leads_to s (k (value_of s q)) t))"
| "leads_to s (Write j x k) t = False"
| "leads_to s (Catch c h) t = False"

fun cycle_chain :: "'v state \<Rightarrow> nat list \<Rightarrow> nat \<Rightarrow> bool" where
  "cycle_chain s [] t = True"
| "cycle_chain s (x # xs) t =
     (fresh s x \<and> leads_to s (p_calculate (pipelines s x)) (hd (xs @ [t])) \<and> cycle_chain s xs t)"

text \<open>
  What reading a producer that is up to date leaves as it is: all but the edge maps.
\<close>

definition same_nodes :: "'v state \<Rightarrow> 'v state \<Rightarrow> bool" where
  "same_nodes s s' \<longleftrightarrow>
     activeConsumer s' = activeConsumer s
   \<and> (\<forall>j. v_value (valuePipelines s' j) = v_value (valuePipelines s j))
   \<and> (\<forall>i. p_value (pipelines s' i) = p_value (pipelines s i)
          \<and> p_stale (pipelines s' i) = p_stale (pipelines s i)
          \<and> p_calculate (pipelines s' i) = p_calculate (pipelines s i))"

text \<open>
  C7 is about what happens between two reads. \<open>keeps X s s'\<close> is what every read and every
  write leaves in place, from the state \<open>s\<close> it starts in to the state \<open>s'\<close> it leaves: the
  frame of every call; a leaf whose \<open>valueVersion\<close> has not moved holds the value it
  held; and when the \<open>valueVersion\<close> of no leaf has moved, every pipeline that was clean is
  still clean and holds the value it held. \<open>X\<close> is the pipeline that \<open>recomputeValue\<close> has
  been called for, if any, for which the last need not hold.
\<close>

definition keeps :: "nat option \<Rightarrow> 'v state \<Rightarrow> 'v state \<Rightarrow> bool" where
  "keeps X s s' \<longleftrightarrow>
     frame s s'
   \<and> (\<forall>j. v_valueVersion (valuePipelines s' j) = v_valueVersion (valuePipelines s j) \<longrightarrow>
          v_value (valuePipelines s' j) = v_value (valuePipelines s j))
   \<and> ((\<forall>j. v_valueVersion (valuePipelines s' j) = v_valueVersion (valuePipelines s j)) \<longrightarrow>
        (\<forall>i. Some i \<noteq> X \<longrightarrow> p_stale (pipelines s i) = StaleFalse \<longrightarrow>
           p_stale (pipelines s' i) = StaleFalse
         \<and> p_value (pipelines s' i) = p_value (pipelines s i)))"

text \<open>
  User code that calls no \<open>setValue\<close>, a graph in which no \<open>calculate()\<close> does, and what a
  read leaves in place in such a graph: every leaf. \<open>idle s\<close> are the operations of the
  host that write nothing either: a read, the reclaiming of a pipeline, and a \<open>setValue\<close>
  with the value that the leaf holds in \<open>s\<close>.
\<close>

primrec no_write :: "'v prog \<Rightarrow> bool" where
  "no_write (Return x) = True"
| "no_write Throw = True"
| "no_write (Read q k) = (\<forall>x. no_write (k x))"
| "no_write (Write j x k) = False"
| "no_write (Catch c h) = (no_write c \<and> (\<forall>e. no_write (h e)))"

definition read_only :: "'v state \<Rightarrow> bool" where
  "read_only s \<longleftrightarrow> (\<forall>i. no_write (p_calculate (pipelines s i)))"

definition leaves_kept :: "'v state \<Rightarrow> 'v state \<Rightarrow> bool" where
  "leaves_kept s s' \<longleftrightarrow>
     frame s s'
   \<and> (read_only s \<longrightarrow>
        (\<forall>j. v_value (valuePipelines s' j) = v_value (valuePipelines s j)
           \<and> v_valueVersion (valuePipelines s' j) = v_valueVersion (valuePipelines s j)))"

fun idle :: "'v state \<Rightarrow> 'v operation \<Rightarrow> bool" where
  "idle s (GetValue q) = True"
| "idle s (SetValue j x) = (x = v_value (valuePipelines s j))"
| "idle s (Reclaim i) = True"
| "idle s operation = False"





text \<open>
  The graph is acyclic when the pipelines can be ranked so that every pipeline reads
  only leaves and pipelines of lower rank.
\<close>

definition bound :: "(nat \<Rightarrow> nat) \<Rightarrow> producer \<Rightarrow> nat" where
  "bound rank q = (case q of V j \<Rightarrow> 0 | P i \<Rightarrow> Suc (rank i))"


text \<open>
  The invariant of the engine between and during reads, for pipelines that only read.

  \<^item> \<open>static\<close>: what never changes, and that a clean pipeline holds a user value;
  \<^item> \<open>edges_current X\<close>: a live edge of a pipeline that is clean, or is being computed,
    leads to a producer that is up to date and still at the recorded version (but for
    the producers \<open>X\<close> whose consumers are being notified right now);
  \<^item> \<open>replayable\<close>: the value a pipeline holds is what its \<open>calculate()\<close> returns when
    run over its live edges, on the values that the producers had at the recorded
    versions; \<open>H q v\<close> is the value that \<open>q\<close> had at version \<open>v\<close>;
  \<^item> \<open>history\<close>: \<open>H\<close> is right about the present;
  \<^item> \<open>edges_ok\<close>: the notifier of a stale pipeline is a live producer of it, a live
    edge is in both maps, the maps hold only producers that the consumer's
    \<open>calculate()\<close> can read, and no recorded version is ahead of its counter.
\<close>

definition sized_maps :: "'v state \<Rightarrow> bool" where
  "sized_maps s \<longleftrightarrow> (\<forall>i. sized (p_producers (pipelines s i)))"








text \<open>No \<open>calculate()\<close> is running.\<close>

definition quiescent :: "'v state \<Rightarrow> bool" where
  "quiescent s \<longleftrightarrow> activeConsumer s = None \<and> (\<forall>i. p_value (pipelines s i) \<noteq> COMPUTING)"


definition above_rank :: "(nat \<Rightarrow> nat) \<Rightarrow> nat \<Rightarrow> 'v state \<Rightarrow> 'v state \<Rightarrow> bool" where
  "above_rank rank r s s' \<longleftrightarrow> (\<forall>i. rank i < r \<longrightarrow> pipelines s' i = pipelines s i)"

text \<open>\<open>H'\<close> only adds to \<open>H\<close> versions that no producer has reached in \<open>s\<close>.\<close>

definition agrees :: "'v state \<Rightarrow> (producer \<Rightarrow> nat \<Rightarrow> 'v jsval) \<Rightarrow> (producer \<Rightarrow> nat \<Rightarrow> 'v jsval) \<Rightarrow> bool" where
  "agrees s H H' \<longleftrightarrow> (\<forall>q v. v \<le> valueVersion_of s q \<longrightarrow> H' q v = H q v)"


definition quiet :: "(nat \<Rightarrow> nat) \<Rightarrow> nat \<Rightarrow> nat option \<Rightarrow> 'v state \<Rightarrow> 'v state \<Rightarrow> bool" where
  "quiet rank r A s s' \<longleftrightarrow>
     activeConsumer s' = activeConsumer s
   \<and> (\<forall>j. v_value (valuePipelines s' j) = v_value (valuePipelines s j)
          \<and> v_valueVersion (valuePipelines s' j) = v_valueVersion (valuePipelines s j))
   \<and> (\<forall>i. p_stale (pipelines s i) = StaleFalse \<longrightarrow>
          p_stale (pipelines s' i) = StaleFalse
        \<and> p_value (pipelines s' i) = p_value (pipelines s i)
        \<and> p_valueVersion (pipelines s' i) = p_valueVersion (pipelines s i))
   \<and> (\<forall>i. p_value (pipelines s i) \<noteq> COMPUTING \<longrightarrow> p_value (pipelines s' i) \<noteq> COMPUTING)
   \<and> (\<forall>i. p_valueVersion (pipelines s i) \<le> p_valueVersion (pipelines s' i))
   \<and> (\<forall>c. r \<le> rank c \<longrightarrow>
          p_value (pipelines s' c) = p_value (pipelines s c)
        \<and> p_stale (pipelines s' c) = p_stale (pipelines s c)
        \<and> p_valueVersion (pipelines s' c) = p_valueVersion (pipelines s c)
        \<and> p_trackingVersion (pipelines s' c) = p_trackingVersion (pipelines s c)
        \<and> (Some c \<noteq> A \<longrightarrow>
              p_producers (pipelines s' c) = p_producers (pipelines s c)
            \<and> (\<forall>q. tracked s' q c = tracked s q c)))
   \<and> (\<forall>a q. A = Some a \<longrightarrow> live s a q \<longrightarrow> live s' a q)"

text \<open>The consumer \<open>c\<close> has the live edges it had, with the versions they recorded.\<close>

definition pruned :: "nat \<Rightarrow> 'v state \<Rightarrow> 'v state \<Rightarrow> bool" where
  "pruned c s s' \<longleftrightarrow>
     (\<forall>q. live s' c q = live s c q) \<and> (\<forall>q. live s c q \<longrightarrow> seen s' c q = seen s c q)"


text \<open>The two assignments of \<open>setValue\<close>.\<close>

definition store :: "nat \<Rightarrow> 'v jsval \<Rightarrow> 'v state \<Rightarrow> 'v state" where
  "store j x s =
     upd_value j (\<lambda>v. v\<lparr>v_valueVersion := v_valueVersion v + 1\<rparr>)
       (upd_value j (\<lambda>v. v\<lparr>v_value := x\<rparr>) s)"




definition leaf_values :: "'v state \<Rightarrow> nat \<Rightarrow> 'v jsval" where
  "leaf_values s j = v_value (valuePipelines s j)"



section \<open>Basic facts\<close>

lemma res_all_mono: "res_all Q r \<Longrightarrow> (\<And>s. Q s \<Longrightarrow> R s) \<Longrightarrow> res_all R r"
  by (cases r) auto

declare engine.simps(2) [simp del]

lemma engine_Suc [simp]:
  "e_checkForActuallyChangedValue (engine (Suc n)) = checkForActuallyChangedValue_body (engine n)"
  "e_recomputeValue (engine (Suc n)) = recomputeValue_body (engine n)"
  "e_get_value (engine (Suc n)) = get_value_body (engine n)"
  "e_notify (engine (Suc n)) = notify_body (engine n)"
  "e_setValue (engine (Suc n)) = setValue_body (engine n)"
  "e_producerNotifyConsumers (engine (Suc n)) = producerNotifyConsumers_body (engine n)"
  "e_notifyLoop (engine (Suc n)) = notifyLoop_body (engine n)"
  "e_consumerPollValueStatus (engine (Suc n)) = consumerPollValueStatus_body (engine n)"
  "e_pollLoop (engine (Suc n)) = pollLoop_body (engine n)"
  "e_producerPollStatus (engine (Suc n)) = producerPollStatus_body (engine n)"
  "e_run (engine (Suc n)) = run_body (engine n)"
  by (simp_all add: engine.simps(2))

subsection \<open>The ambient consumer\<close>

lemma activeConsumer_upd [simp]:
  "activeConsumer (upd_pipeline i f s) = activeConsumer s"
  "activeConsumer (upd_value j g s) = activeConsumer s"
  "activeConsumer (upd_consumers q h s) = activeConsumer s"
  "activeConsumer (upd_producers i k s) = activeConsumer s"
  by (auto simp: upd_pipeline_def upd_value_def upd_consumers_def upd_producers_def
      split: producer.splits)

lemma activeConsumer_producerAccessed [simp]:
  "activeConsumer (producerAccessed q s) = activeConsumer s"
  by (auto simp: producerAccessed_def Let_def split: option.splits)

subsection \<open>Relating the state before a call and after it\<close>

lemma recomputeValue_body_alt:
  "recomputeValue_body E i s =
     (if p_value (pipelines s i) = COMPUTING then Err Circular s
      else and_then
             (try_finally (e_run E (p_calculate (pipelines s i)) (recompute_begin i s))
                (\<lambda>s5. s5\<lparr>activeConsumer := activeConsumer s\<rparr>))
             (\<lambda>newValue s6.
                Ok () (recompute_finish i (p_value (pipelines s i)) newValue s6)))"
  by (auto simp: recomputeValue_body_def recompute_begin_def recompute_finish_def Let_def
      setActiveConsumer_def upd_pipeline_def intro!: arg_cong2[where f = and_then] ext)

lemma res_rel_seq:
  assumes "res_rel Rok Rerr s r"
    and "\<And>x s1. r = Ok x s1 \<Longrightarrow> Rok s s1 \<Longrightarrow> res_rel Rok Rerr s (f x s1)"
  shows "res_rel Rok Rerr s (and_then r f)"
  using assms by (cases r) (auto simp: and_then_def)

lemma res_rel_step:
  assumes "res_rel Rok Rerr s1 r" and "R s s1"
    and "\<And>a b c. R a b \<Longrightarrow> Rok b c \<Longrightarrow> Rok a c"
    and "\<And>a b c. R a b \<Longrightarrow> Rerr b c \<Longrightarrow> Rerr a c"
  shows "res_rel Rok Rerr s r"
  using assms by (cases r) auto

lemma res_rel_catch:
  assumes "res_rel Rok Rerr s r"
    and "\<And>e s1. Rerr s s1 \<Longrightarrow> res_rel Rok Rerr s (h e s1)"
  shows "res_rel Rok Rerr s (try_catch r h)"
  using assms by (cases r) (auto simp: try_catch_def)

lemma good2D:
  assumes "good2 Rok Rerr E"
  shows "res_rel Rok Rerr s (e_checkForActuallyChangedValue E i s)"
    "res_rel Rok Rerr s (e_recomputeValue E i s)"
    "res_rel Rok Rerr s (e_get_value E q s)"
    "res_rel Rok Rerr s (e_notify E i x s)"
    "res_rel Rok Rerr s (e_setValue E i y s)"
    "res_rel Rok Rerr s (e_producerNotifyConsumers E q s)"
    "res_rel Rok Rerr s (e_notifyLoop E q r it s)"
    "res_rel Rok Rerr s (e_consumerPollValueStatus E i st s)"
    "res_rel Rok Rerr s (e_pollLoop E i r it' sk s)"
    "res_rel Rok Rerr s (e_producerPollStatus E q lv s)"
    "res_rel Rok Rerr s (e_run E c s)"
  using assms unfolding good2_def by simp_all

lemma engine_rel:
  fixes Rok Rerr :: "'v state \<Rightarrow> 'v state \<Rightarrow> bool"
  assumes ok_refl: "\<And>s. Rok s s"
    and err_refl: "\<And>s. Rerr s s"
    and ok_trans: "\<And>a b c. Rok a b \<Longrightarrow> Rok b c \<Longrightarrow> Rok a c"
    and ok_err: "\<And>a b c. Rok a b \<Longrightarrow> Rerr b c \<Longrightarrow> Rerr a c"
    and err_ok: "\<And>a b c. Rerr a b \<Longrightarrow> Rok b c \<Longrightarrow> Rok a c"
    and err_trans: "\<And>a b c. Rerr a b \<Longrightarrow> Rerr b c \<Longrightarrow> Rerr a c"
    and clean: "\<And>i s s1. p_stale (pipelines s i) \<noteq> StaleFalse \<Longrightarrow> p_value (pipelines s i) \<noteq> UNSET
        \<Longrightarrow> p_value (pipelines s i) \<noteq> COMPUTING \<Longrightarrow> Rok s s1
        \<Longrightarrow> Rok s (upd_pipeline i (\<lambda>p. p\<lparr>p_stale := StaleFalse\<rparr>) s1)"
    and rec_err: "\<And>i s s5. p_value (pipelines s i) \<noteq> COMPUTING \<Longrightarrow> Rerr (recompute_begin i s) s5
        \<Longrightarrow> Rerr s (s5\<lparr>activeConsumer := activeConsumer s\<rparr>)"
    and rec_ok: "\<And>i s s5 x. p_value (pipelines s i) \<noteq> COMPUTING \<Longrightarrow> Rok (recompute_begin i s) s5
        \<Longrightarrow> Rok s (recompute_finish i (p_value (pipelines s i)) x (s5\<lparr>activeConsumer := activeConsumer s\<rparr>))"
    and accessed: "\<And>q s. Rok s (producerAccessed q s)"
    and mark: "\<And>i x s. p_stale (pipelines s i) = StaleFalse \<Longrightarrow> p_value (pipelines s i) \<noteq> COMPUTING
        \<Longrightarrow> Rok s (upd_pipeline i (\<lambda>p. p\<lparr>p_stale := x\<rparr>) s)"
    and store: "\<And>j x s. x \<noteq> v_value (valuePipelines s j)
        \<Longrightarrow> Rok s (upd_value j (\<lambda>v. v\<lparr>v_valueVersion := v_valueVersion v + 1\<rparr>)
                    (upd_value j (\<lambda>v. v\<lparr>v_value := x\<rparr>) s))"
    and del_c: "\<And>q g c s. Rok s (upd_consumers q (\<lambda>e. edges_delete (g e) e c) s)"
    and del_p: "\<And>i g q s. Rok s (upd_producers i (\<lambda>e. edges_delete (g e) e q) s)"
  shows "good2 Rok Rerr (engine n)"
proof (induction n)
  case 0
  show ?case by (simp add: good2_def)
next
  case (Suc n)
  note IH = good2D[OF Suc.IH]
  note step = res_rel_step[where Rok = Rok and Rerr = Rerr and R = Rok, OF _ _ ok_trans ok_err]
  have c1: "res_rel Rok Rerr s (checkForActuallyChangedValue_body (engine n) i s)" for i s
  proof -
    have "res_rel Rok Rerr s (and_then (consumerPollValueStatus n i (p_stale (pipelines s i)) s)
             (\<lambda>depsChanged s1.
                if \<not> depsChanged
                then Ok () (upd_pipeline i (\<lambda>p. p\<lparr>p_stale := StaleFalse\<rparr>) s1)
                else recomputeValue n i s1))"
      if "p_stale (pipelines s i) \<noteq> StaleFalse" "p_value (pipelines s i) \<noteq> UNSET"
        "p_value (pipelines s i) \<noteq> COMPUTING"
      by (rule res_rel_seq[OF IH(8)]) (auto intro: clean[OF that] step[OF IH(2)])
    then show ?thesis
      unfolding checkForActuallyChangedValue_body_def using IH(2) ok_refl by auto
  qed
  have c2: "res_rel Rok Rerr s (recomputeValue_body (engine n) i s)" for i s
  proof (cases "p_value (pipelines s i) = COMPUTING")
    case True
    then show ?thesis by (simp add: recomputeValue_body_alt err_refl)
  next
    case False
    show ?thesis
      using IH(11)[of "recompute_begin i s" "p_calculate (pipelines s i)"] False
      by (cases "run n (p_calculate (pipelines s i)) (recompute_begin i s)")
         (auto simp: recomputeValue_body_alt and_then_def try_finally_def intro: rec_err rec_ok)
  qed
  have c3: "res_rel Rok Rerr s (get_value_body (engine n) q s)" for q s
    unfolding get_value_body_def Let_def
    by (auto split: producer.splits intro!: res_rel_seq[OF IH(1)] accessed
        intro: ok_trans[OF _ accessed])
  have c4: "res_rel Rok Rerr s (notify_body (engine n) i x s)" for i x s
    unfolding notify_body_def Let_def
    by (auto intro!: ok_refl err_refl step[OF IH(6)] mark)
  have c5: "res_rel Rok Rerr s (setValue_body (engine n) j y s)" for j y s
  proof (cases "y = v_value (valuePipelines s j)")
    case True
    then show ?thesis by (simp add: setValue_body_def ok_refl)
  next
    case False
    then show ?thesis
      using step[OF IH(6) store[OF False]] by (simp add: setValue_body_def Let_def)
  qed
  have c6: "res_rel Rok Rerr s (producerNotifyConsumers_body (engine n) q s)" for q s
    unfolding producerNotifyConsumers_body_def Let_def by (rule IH)
  have c7: "res_rel Rok Rerr s (notifyLoop_body (engine n) q r it s)" for q r it s
  proof (cases "iter_next it (consumers_of s q)")
    case None
    then show ?thesis by (simp add: notifyLoop_body_def ok_refl)
  next
    case (Some a)
    obtain c tv it' where a: "a = ((c, tv), it')" by (metis prod.exhaust)
    let ?s1 = "upd_consumers q (\<lambda>e. edges_delete r e c) s"
    have d1: "Rok s ?s1" by (rule del_c[where g = "\<lambda>_. r"])
    have d2: "Rok s (upd_producers c (\<lambda>e. edges_delete (field_ref e) e q) ?s1)"
      by (rule ok_trans[OF d1 del_p])
    show ?thesis
      unfolding notifyLoop_body_def Let_def Some a
      by (auto intro!: step[OF IH(7) d1] step[OF IH(7) d2] res_rel_seq[OF IH(4)] step[OF IH(7)])
  qed
  have c8: "res_rel Rok Rerr s (consumerPollValueStatus_body (engine n) i st s)" for i st s
    unfolding consumerPollValueStatus_body_def Let_def
    by (auto split: stale.splits intro!: IH res_rel_seq[OF IH(10)] ok_refl step[OF IH(9)])
  have c9: "res_rel Rok Rerr s (pollLoop_body (engine n) i r it sk s)" for i r it sk s
  proof (cases "iter_next it (p_producers (pipelines s i))")
    case None
    then show ?thesis by (simp add: pollLoop_body_def ok_refl)
  next
    case (Some a)
    obtain q vv it' where a: "a = ((q, vv), it')" by (metis prod.exhaust)
    have d: "Rok s (upd_consumers q (\<lambda>e. edges_delete (field_ref e) e i)
                 (upd_producers i (\<lambda>e. edges_delete r e q) s))"
      by (rule ok_trans[OF del_p[where g = "\<lambda>_. r"] del_c])
    show ?thesis
      unfolding pollLoop_body_def Let_def Some a
      by (auto intro!: IH step[OF IH(9) d] res_rel_seq[OF IH(10)] step[OF IH(9)])
  qed
  have c10: "res_rel Rok Rerr s (producerPollStatus_body (engine n) q lv s)" for q lv s
    unfolding producerPollStatus_body_def Let_def
    by (auto split: producer.splits simp: and_then_def ok_refl intro!: res_rel_seq[OF IH(1), unfolded and_then_def])
  have c11: "res_rel Rok Rerr s (run_body (engine n) c s)" for c s
  proof (cases c)
    case (Catch c1 h)
    show ?thesis
      unfolding run_body_def Catch prog.case
      by (rule res_rel_catch[OF IH(11)])
         (rule res_rel_step[where Rok = Rok and Rerr = Rerr and R = Rerr, OF IH(11) _ err_ok err_trans])
  qed (auto simp: run_body_def intro!: ok_refl err_refl res_rel_seq[OF IH(3)] res_rel_seq[OF IH(5)]
         step[OF IH(11)])
  show ?case
    unfolding good2_def using c1 c2 c3 c4 c5 c6 c7 c8 c9 c10 c11 by simp
qed

subsection \<open>The frame of every call\<close>

lemmas upd_defs = upd_pipeline_def upd_value_def upd_consumers_def upd_producers_def

lemma upd_simps [simp]:
  "pipelines (upd_value j g s) = pipelines s"
  "pipelines (upd_pipeline i f s) = (pipelines s)(i := f (pipelines s i))"
  "valuePipelines (upd_pipeline i f s) = valuePipelines s"
  "valuePipelines (upd_value j g s) = (valuePipelines s)(j := g (valuePipelines s j))"
  "calculationsCount (upd_pipeline i f s) = calculationsCount s"
  "calculationsCount (upd_value j g s) = calculationsCount s"
  by (simp_all add: upd_defs)

lemma frame_refl [simp]: "frame s s"
  by (simp add: frame_def)

lemma frameD:
  assumes "frame s s'"
  shows "activeConsumer s' = activeConsumer s"
    and "calculationsCount s \<le> calculationsCount s'"
    and "v_valueVersion (valuePipelines s j) \<le> v_valueVersion (valuePipelines s' j)"
    and "p_valueVersion (pipelines s i) \<le> p_valueVersion (pipelines s' i)"
    and "p_trackingVersion (pipelines s i) \<le> p_trackingVersion (pipelines s' i)"
    and "p_calculate (pipelines s' i) = p_calculate (pipelines s i)"
  using assms unfolding frame_def by simp_all

lemma frame_computingD:
  assumes "frame s s'" and "p_value (pipelines s i) = COMPUTING"
  shows "p_value (pipelines s' i) = COMPUTING"
    and "p_stale (pipelines s' i) = p_stale (pipelines s i)"
    and "p_valueVersion (pipelines s' i) = p_valueVersion (pipelines s i)"
    and "p_trackingVersion (pipelines s' i) = p_trackingVersion (pipelines s i)"
  using assms unfolding frame_def by simp_all

lemma frame_trans:
  assumes ab: "frame a b" and bc: "frame b c"
  shows "frame a c"
  unfolding frame_def
proof (intro conjI allI impI)
  show "activeConsumer c = activeConsumer a"
    using frameD(1)[OF ab] frameD(1)[OF bc] by simp
  show "calculationsCount a \<le> calculationsCount c"
    using frameD(2)[OF ab] frameD(2)[OF bc] by (rule order_trans)
  show "v_valueVersion (valuePipelines a j) \<le> v_valueVersion (valuePipelines c j)" for j
    using frameD(3)[OF ab] frameD(3)[OF bc] by (rule order_trans)
  show "p_valueVersion (pipelines a i) \<le> p_valueVersion (pipelines c i)" for i
    using frameD(4)[OF ab] frameD(4)[OF bc] by (rule order_trans)
  show "p_trackingVersion (pipelines a i) \<le> p_trackingVersion (pipelines c i)" for i
    using frameD(5)[OF ab] frameD(5)[OF bc] by (rule order_trans)
  show "p_calculate (pipelines c i) = p_calculate (pipelines a i)" for i
    using frameD(6)[OF ab] frameD(6)[OF bc] by simp
next
  fix i assume ca: "p_value (pipelines a i) = COMPUTING"
  note cb = frame_computingD(1)[OF ab ca]
  show "p_value (pipelines c i) = COMPUTING" by (rule frame_computingD(1)[OF bc cb])
  show "p_stale (pipelines c i) = p_stale (pipelines a i)"
    using frame_computingD(2)[OF ab ca] frame_computingD(2)[OF bc cb] by simp
  show "p_valueVersion (pipelines c i) = p_valueVersion (pipelines a i)"
    using frame_computingD(3)[OF ab ca] frame_computingD(3)[OF bc cb] by simp
  show "p_trackingVersion (pipelines c i) = p_trackingVersion (pipelines a i)"
    using frame_computingD(4)[OF ab ca] frame_computingD(4)[OF bc cb] by simp
qed

lemma frame_upd_consumers [simp]: "frame s (upd_consumers q f s)"
  by (auto simp: frame_def upd_consumers_def split: producer.splits)

lemma frame_upd_producers [simp]: "frame s (upd_producers i f s)"
  by (auto simp: frame_def upd_producers_def)

lemma frame_peel:
  "frame a b \<Longrightarrow> frame a (upd_producers i f b)"
  "frame a b \<Longrightarrow> frame a (upd_consumers q g b)"
  by (erule frame_trans, simp)+

lemma frame_producerAccessed [simp]: "frame s (producerAccessed q s)"
  unfolding producerAccessed_def Let_def
  by (cases "activeConsumer s") (auto intro!: frame_peel)

lemma res_rel_res_all:
  assumes "res_rel Rok Rerr s r" and "\<And>s'. Rok s s' \<Longrightarrow> Q s'" and "\<And>s'. Rerr s s' \<Longrightarrow> Q s'"
  shows "res_all Q r"
  using assms by (cases r) auto

lemma recompute_begin_simps [simp]:
  "activeConsumer (recompute_begin i s) = Some i"
  "calculationsCount (recompute_begin i s) = calculationsCount s + 1"
  "valuePipelines (recompute_begin i s) = valuePipelines s"
  "pipelines (recompute_begin i s) =
     (pipelines s)(i := (pipelines s i)\<lparr>p_value := COMPUTING,
                                       p_trackingVersion := p_trackingVersion (pipelines s i) + 1\<rparr>)"
  by (simp_all add: recompute_begin_def)

lemma frame_upd_pipeline:
  assumes "frame s s1" and "p_value (pipelines s i) \<noteq> COMPUTING"
    and "p_valueVersion (pipelines s1 i) \<le> p_valueVersion (f (pipelines s1 i))"
    and "p_trackingVersion (pipelines s1 i) \<le> p_trackingVersion (f (pipelines s1 i))"
    and "p_calculate (f (pipelines s1 i)) = p_calculate (pipelines s1 i)"
  shows "frame s (upd_pipeline i f s1)"
proof -
  note D = frameD[OF assms(1)]
  show ?thesis
    unfolding frame_def
  proof (intro conjI allI impI)
    fix k assume c: "p_value (pipelines s k) = COMPUTING"
    then have "k \<noteq> i" using assms(2) by auto
    with frame_computingD[OF assms(1) c]
    show "p_value (pipelines (upd_pipeline i f s1) k) = COMPUTING"
      "p_stale (pipelines (upd_pipeline i f s1) k) = p_stale (pipelines s k)"
      "p_valueVersion (pipelines (upd_pipeline i f s1) k) = p_valueVersion (pipelines s k)"
      "p_trackingVersion (pipelines (upd_pipeline i f s1) k) = p_trackingVersion (pipelines s k)"
      by simp_all
  next
    show "p_valueVersion (pipelines s k) \<le> p_valueVersion (pipelines (upd_pipeline i f s1) k)" for k
      using D(4)[of k] assms(3) by (auto intro: order_trans)
    show "p_trackingVersion (pipelines s k) \<le> p_trackingVersion (pipelines (upd_pipeline i f s1) k)" for k
      using D(5)[of k] assms(4) by (auto intro: order_trans)
    show "p_calculate (pipelines (upd_pipeline i f s1) k) = p_calculate (pipelines s k)" for k
      using D(6)[of k] assms(5) by auto
  qed (use D in simp_all)
qed

lemma frame_recompute_begin:
  assumes "p_value (pipelines s i) \<noteq> COMPUTING"
  shows "frame s ((recompute_begin i s)\<lparr>activeConsumer := activeConsumer s\<rparr>)"
  using assms by (auto simp: frame_def)

lemma frame_activeConsumer:
  "frame (s\<lparr>activeConsumer := a\<rparr>) s' \<Longrightarrow> frame s (s'\<lparr>activeConsumer := activeConsumer s\<rparr>)"
  by (simp add: frame_def)

lemma frame_recompute_err:
  assumes "p_value (pipelines s i) \<noteq> COMPUTING" and "frame (recompute_begin i s) s5"
  shows "frame s (s5\<lparr>activeConsumer := activeConsumer s\<rparr>)"
proof -
  have "frame ((recompute_begin i s)\<lparr>activeConsumer := activeConsumer s\<rparr>)
          (s5\<lparr>activeConsumer := activeConsumer s\<rparr>)"
    using assms(2) by (simp add: frame_def)
  with frame_recompute_begin[OF assms(1)] show ?thesis by (rule frame_trans)
qed

lemma frame_recompute_ok:
  assumes "p_value (pipelines s i) \<noteq> COMPUTING" and "frame (recompute_begin i s) s5"
  shows "frame s (recompute_finish i (p_value (pipelines s i)) x
                    (s5\<lparr>activeConsumer := activeConsumer s\<rparr>))"
proof -
  let ?t = "s5\<lparr>activeConsumer := activeConsumer s\<rparr>"
  let ?f = "\<lambda>p. p\<lparr>p_stale := StaleFalse\<rparr>"
  let ?g = "if x = p_value (pipelines s i) then (\<lambda>p. p\<lparr>p_value := p_value (pipelines s i)\<rparr>)
            else (\<lambda>p. p\<lparr>p_value := x, p_valueVersion := p_valueVersion p + 1\<rparr>)"
  have e: "frame s ?t" by (rule frame_recompute_err[OF assms])
  have e1: "frame s (upd_pipeline i ?f ?t)"
    by (rule frame_upd_pipeline[where f = ?f, OF e assms(1)]) simp_all
  have e2: "frame s (upd_pipeline i ?g (upd_pipeline i ?f ?t))"
    by (rule frame_upd_pipeline[where f = ?g, OF e1 assms(1)]) simp_all
  have "recompute_finish i (p_value (pipelines s i)) x ?t = upd_pipeline i ?g (upd_pipeline i ?f ?t)"
    by (simp add: recompute_finish_def Let_def)
  with e2 show ?thesis by simp
qed

lemma frame_engine: "good2 frame frame (engine n)"
proof (rule engine_rel)
  show "frame a b \<Longrightarrow> frame b c \<Longrightarrow> frame a c" for a b c :: "'a state"
    by (rule frame_trans)
  show "frame a b \<Longrightarrow> frame b c \<Longrightarrow> frame a c" for a b c :: "'a state"
    by (rule frame_trans)
  show "frame a b \<Longrightarrow> frame b c \<Longrightarrow> frame a c" for a b c :: "'a state"
    by (rule frame_trans)
  show "frame a b \<Longrightarrow> frame b c \<Longrightarrow> frame a c" for a b c :: "'a state"
    by (rule frame_trans)
  show "frame s (s5\<lparr>activeConsumer := activeConsumer s\<rparr>)"
    if "p_value (pipelines s i) \<noteq> COMPUTING" "frame (recompute_begin i s) s5"
    for i and s s5 :: "'a state"
    using that by (rule frame_recompute_err)
  show "frame s (recompute_finish i (p_value (pipelines s i)) x (s5\<lparr>activeConsumer := activeConsumer s\<rparr>))"
    if "p_value (pipelines s i) \<noteq> COMPUTING" "frame (recompute_begin i s) s5"
    for i x and s s5 :: "'a state"
    using that by (rule frame_recompute_ok)
  show "frame s (upd_pipeline i (\<lambda>p. p\<lparr>p_stale := StaleFalse\<rparr>) s1)"
    if "p_value (pipelines s i) \<noteq> COMPUTING" "frame s s1" for i and s s1 :: "'a state"
    by (rule frame_upd_pipeline[where f = "\<lambda>p. p\<lparr>p_stale := StaleFalse\<rparr>", OF that(2) that(1)])
       simp_all
  show "frame s (upd_pipeline i (\<lambda>p. p\<lparr>p_stale := x\<rparr>) s)"
    if "p_stale (pipelines s i) = StaleFalse" "p_value (pipelines s i) \<noteq> COMPUTING"
    for i x and s :: "'a state"
    by (rule frame_upd_pipeline[where f = "\<lambda>p. p\<lparr>p_stale := x\<rparr>", OF frame_refl that(2)])
       simp_all
  show "frame s (upd_value j (\<lambda>v. v\<lparr>v_valueVersion := v_valueVersion v + 1\<rparr>)
                    (upd_value j (\<lambda>v. v\<lparr>v_value := x\<rparr>) s))" for j x and s :: "'a state"
    by (auto simp: frame_def)
qed simp_all

lemma producerAccessed_fields [simp]:
  "p_value (pipelines (producerAccessed q s) i) = p_value (pipelines s i)"
  "p_stale (pipelines (producerAccessed q s) i) = p_stale (pipelines s i)"
  "p_valueVersion (pipelines (producerAccessed q s) i) = p_valueVersion (pipelines s i)"
  "p_trackingVersion (pipelines (producerAccessed q s) i) = p_trackingVersion (pipelines s i)"
  "p_calculate (pipelines (producerAccessed q s) i) = p_calculate (pipelines s i)"
  "p_reclaimed (pipelines (producerAccessed q s) i) = p_reclaimed (pipelines s i)"
  "v_value (valuePipelines (producerAccessed q s) j) = v_value (valuePipelines s j)"
  "v_valueVersion (valuePipelines (producerAccessed q s) j) = v_valueVersion (valuePipelines s j)"
  "calculationsCount (producerAccessed q s) = calculationsCount s"
  by (auto simp: producerAccessed_def Let_def upd_consumers_def upd_producers_def
      split: option.splits producer.splits)

lemma producerAccessed_None [simp]: "activeConsumer s = None \<Longrightarrow> producerAccessed q s = s"
  by (simp add: producerAccessed_def)

lemmas framed = good2D[OF frame_engine]

lemma res_rel_frame_step:
  "res_rel frame frame s1 r \<Longrightarrow> frame s s1 \<Longrightarrow> res_rel frame frame s r"
  by (rule res_rel_step[where Rok = frame and Rerr = frame, OF _ _ frame_trans frame_trans])

lemma frame_upd_value_version:
  "frame s (upd_value j (\<lambda>v. v\<lparr>v_valueVersion := v_valueVersion v + 1\<rparr>) s)"
  by (auto simp: frame_def)

lemma updateValue_frame: "res_rel frame frame s (updateValue n j updater s)"
  unfolding updateValue_def
  by (rule res_rel_seq[OF framed(11)]) (rule res_rel_frame_step[OF framed(5)])

lemma mutateValue_frame: "res_rel frame frame s (mutateValue n j mutator s)"
  unfolding mutateValue_def Let_def
  by (rule res_rel_seq[OF framed(11)])
     (rule res_rel_frame_step[OF framed(6)], erule frame_trans, rule frame_upd_value_version)

lemma frame_reclaim: "frame s (upd_pipeline i (\<lambda>p. p\<lparr>p_reclaimed := True\<rparr>) s)"
  by (auto simp: frame_def)

lemma res_rel_Ok_map:
  "res_rel Rok Rerr s r \<Longrightarrow> res_rel Rok Rerr s (and_then r (\<lambda>x s1. Ok (g x) s1))"
  by (cases r) (simp_all add: and_then_def)

lemma perform_frame: "res_rel frame frame s (perform n operation s)"
  unfolding perform_def
  by (cases operation)
     (simp_all add: res_rel_Ok_map framed updateValue_frame mutateValue_frame frame_reclaim)

lemma perform_all_frame: "perform_all n ops s = Some s' \<Longrightarrow> frame s s'"
proof (induction ops arbitrary: s)
  case Nil
  then show ?case by simp
next
  case (Cons operation ops)
  show ?case
  proof (cases "perform n operation s")
    case OutOfFuel
    with Cons.prems show ?thesis by simp
  next
    case (Err e s1)
    with perform_frame[of s n operation] have "frame s s1" by simp
    moreover from Err Cons.prems have "frame s1 s'" by (auto intro: Cons.IH)
    ultimately show ?thesis by (rule frame_trans)
  next
    case (Ok x s1)
    with perform_frame[of s n operation] have "frame s s1" by simp
    moreover from Ok Cons.prems have "frame s1 s'" by (auto intro: Cons.IH)
    ultimately show ?thesis by (rule frame_trans)
  qed
qed

subsection \<open>Notification\<close>

lemma notified_refl [simp]: "notified q s s"
  by (simp add: notified_def split: producer.splits)

lemma notified_trans: "notified q a b \<Longrightarrow> notified q b c \<Longrightarrow> notified q a c"
  unfolding notified_def by (cases q) auto

lemma notified_weaken: "notified (P i) s s' \<Longrightarrow> notified q s s'"
  unfolding notified_def by (cases q) auto

lemma notified_upd_consumers: "notified q s (upd_consumers q f s)"
  by (auto simp: notified_def upd_consumers_def split: producer.splits)

lemma notified_upd_producers: "notified q s (upd_producers i f s)"
  by (auto simp: notified_def upd_producers_def split: producer.splits)

lemma notified_stale:
  "p_stale (pipelines s i) = StaleFalse \<Longrightarrow> notified q s (upd_pipeline i (\<lambda>p. p\<lparr>p_stale := x\<rparr>) s)"
  by (auto simp: notified_def split: producer.splits)

lemma res_all_notified_step:
  "res_all (notified q s1) r \<Longrightarrow> notified q s s1 \<Longrightarrow> res_all (notified q s) r"
  by (cases r) (auto intro: notified_trans)

lemma notify_clique:
  "(\<forall>i x (s::'v state). res_all (notified (P i) s) (notify n i x s))
 \<and> (\<forall>q (s::'v state). res_all (notified q s) (producerNotifyConsumers n q s))
 \<and> (\<forall>q r it (s::'v state). res_all (notified q s) (notifyLoop n q r it s))"
proof (induction n)
  case 0
  show ?case by simp
next
  case (Suc n)
  have a: "res_all (notified (P i) s) (notify (Suc n) i x s)" for i x and s :: "'v state"
  proof -
    have "res_all (notified (P i) s)
            (producerNotifyConsumers n (P i) (upd_pipeline i (\<lambda>p. p\<lparr>p_stale := y\<rparr>) s))"
      if "p_stale (pipelines s i) = StaleFalse" for y
      using Suc.IH by (intro res_all_notified_step[OF _ notified_stale[OF that, of _ y]]) simp
    then show ?thesis
      by (auto simp: notify_body_def Let_def)
  qed
  have b: "res_all (notified q s) (producerNotifyConsumers (Suc n) q s)" for q and s :: "'v state"
    using Suc.IH by (simp add: producerNotifyConsumers_body_def Let_def)
  have c: "res_all (notified q s) (notifyLoop (Suc n) q r it s)" for q r it and s :: "'v state"
  proof (cases "iter_next it (consumers_of s q)")
    case None
    then show ?thesis by (simp add: notifyLoop_body_def)
  next
    case (Some a)
    obtain c tv it' where a: "a = ((c, tv), it')" by (metis prod.exhaust)
    let ?s1 = "upd_consumers q (\<lambda>e. edges_delete r e c) s"
    let ?s2 = "upd_producers c (\<lambda>e. edges_delete (field_ref e) e q) ?s1"
    have d1: "notified q s ?s1" by (rule notified_upd_consumers)
    have d2: "notified q s ?s2" by (rule notified_trans[OF d1 notified_upd_producers])
    have l: "res_all (notified q t) (notifyLoop n q r it' t)" for t :: "'v state"
      using Suc.IH by simp
    have n: "res_all (notified q s) (notify n c (Some q) s)"
      using Suc.IH by (auto intro: res_all_mono notified_weaken)
    have live: "res_all (notified q s)
        (and_then (notify n c (Some q) s) (\<lambda>_ s1. notifyLoop n q r it' s1))"
      using n l by (cases "notify n c (Some q) s") (auto simp: and_then_def intro: res_all_notified_step)
    show ?thesis
      using res_all_notified_step[OF l d1] res_all_notified_step[OF l d2] live
      by (simp add: notifyLoop_body_def Let_def Some a)
  qed
  from a b c show ?case by blast
qed

lemma notify_notified: "notify n i x s = Ok u s' \<Longrightarrow> notified (P i) s s'"
  using notify_clique[of n] by (metis res_all.simps(3))

lemma producerNotifyConsumers_notified: "producerNotifyConsumers n q s = Ok u s' \<Longrightarrow> notified q s s'"
  using notify_clique[of n] by (metis res_all.simps(3))

lemma notifyLoop_notified: "notifyLoop n q r it s = Ok u s' \<Longrightarrow> notified q s s'"
  using notify_clique[of n] by (metis res_all.simps(3))

lemma notify_marks:
  assumes "notify n i x s = Ok u s'"
  shows "p_stale (pipelines s' i) \<noteq> StaleFalse"
proof (cases n)
  case 0
  with assms show ?thesis by simp
next
  case (Suc m)
  show ?thesis
  proof (cases "p_stale (pipelines s i) = StaleFalse")
    case False
    with assms Suc show ?thesis by (simp add: notify_body_def)
  next
    case True
    let ?s1 = "upd_pipeline i (\<lambda>p. p\<lparr>p_stale := (case x of None \<Rightarrow> StaleTrue | Some q \<Rightarrow> StaleBy q)\<rparr>) s"
    from assms Suc True have "producerNotifyConsumers m (P i) ?s1 = Ok u s'"
      by (simp add: notify_body_def Let_def split: if_splits)
    from producerNotifyConsumers_notified[OF this]
    have "p_stale (pipelines ?s1 i) \<noteq> StaleFalse \<longrightarrow> p_stale (pipelines s' i) = p_stale (pipelines ?s1 i)"
      unfolding notified_def by blast
    then show ?thesis by (cases x) auto
  qed
qed

lemma notified_res_all_pNC: "res_all (notified q s) (producerNotifyConsumers n q s)"
  using notify_clique[of n] by blast

subsection \<open>Iterators\<close>

lemma live_next_SomeD:
  "live_next xs k = Some (e, k') \<Longrightarrow>
     \<exists>pre post. xs = pre @ Some e # post \<and> (\<forall>x\<in>set pre. x = None) \<and> k' = k + length pre + 1"
proof (induction xs k rule: live_next.induct)
  case (1 i)
  then show ?case by simp
next
  case (2 xs i)
  then obtain pre post where "xs = pre @ Some e # post" "\<forall>x\<in>set pre. x = None"
    "k' = Suc i + length pre + 1" by auto
  then show ?case
    by (intro exI[of _ "None # pre"] exI[of _ post]) simp
next
  case (3 e' xs i)
  then show ?case by (intro exI[of _ "[]"] exI[of _ xs]) simp
qed

lemma live_next_NoneD: "live_next xs k = None \<Longrightarrow> toTuples xs = []"
  by (induction xs k rule: live_next.induct) auto

lemma toTuples_Nones: "\<forall>x\<in>set pre. x = None \<Longrightarrow> toTuples (pre @ xs) = toTuples xs"
  by (induction pre) auto

lemma slots_delete_prefix:
  "\<exists>B. slots_delete (A @ Some (c, v) # post) c = B @ post \<and> length B = Suc (length A)"
proof (induction A)
  case Nil
  show ?case by (intro exI[of _ "[None]"]) simp
next
  case (Cons a A)
  then obtain B where B: "slots_delete (A @ Some (c, v) # post) c = B @ post" "length B = Suc (length A)"
    by blast
  show ?case
  proof (cases a)
    case None
    with B show ?thesis by (intro exI[of _ "None # B"]) simp
  next
    case (Some kv)
    obtain k w where kv: "kv = (k, w)" by (cases kv)
    show ?thesis
    proof (cases "k = c")
      case True
      with Some kv show ?thesis
        by (intro exI[of _ "None # A @ [Some (c, v)]"]) simp
    next
      case False
      with Some kv B show ?thesis by (intro exI[of _ "Some (k, w) # B"]) simp
    qed
  qed
qed

lemma iter_next_None: "iter_next it e = None \<Longrightarrow> remaining it e = []"
  by (auto simp: iter_next_def remaining_def dest: live_next_NoneD
      split: iter.splits list.splits option.splits)

lemma iter_next_Live:
  assumes "iter_next (Live k) e = Some (x, it')"
  obtains pre post where "drop k (the_Map e) = pre @ Some x # post" "\<forall>y\<in>set pre. y = None"
    "it' = Live (k + length pre + 1)" "drop (k + length pre + 1) (the_Map e) = post"
    "the_Map e = take k (the_Map e) @ pre @ Some x # post" "k < length (the_Map e)"
proof -
  from assms obtain k' where n: "live_next (drop k (the_Map e)) k = Some (x, k')" and it': "it' = Live k'"
    by (auto simp: iter_next_def split: option.splits)
  from live_next_SomeD[OF n] obtain pre post where
    d: "drop k (the_Map e) = pre @ Some x # post" and pre: "\<forall>y\<in>set pre. y = None"
    and k': "k' = k + length pre + 1" by blast
  from d have m: "the_Map e = take k (the_Map e) @ pre @ Some x # post"
    by (metis append_take_drop_id)
  from d have lt: "k < length (the_Map e)" by (cases "k < length (the_Map e)") auto
  have "drop (k + length pre + 1) (the_Map e) = drop (length pre + 1) (drop k (the_Map e))"
    by (simp add: add.commute)
  also have "\<dots> = post" by (simp add: d)
  finally show ?thesis using that d pre it' k' m lt by blast
qed

lemma iter_next_Some:
  assumes "iter_next it e = Some (x, it')"
  shows "remaining it e = x # remaining it' e"
proof (cases it)
  case (Snapshot xs)
  with assms show ?thesis
    by (auto simp: iter_next_def remaining_def split: list.splits)
next
  case (Live k)
  from assms[unfolded Live] show ?thesis
  proof (rule iter_next_Live)
    fix pre post
    assume "drop k (the_Map e) = pre @ Some x # post" "\<forall>y\<in>set pre. y = None"
      "it' = Live (k + length pre + 1)" "drop (k + length pre + 1) (the_Map e) = post"
    then show ?thesis
      by (simp add: Live remaining_def toTuples_Nones)
  qed
qed

lemma the_Map_edges_delete:
  "the_Map (edges_delete r e c) = (case r of LinearRef \<Rightarrow> the_Map e | MapRef \<Rightarrow> slots_delete (the_Map e) c)"
  by (simp add: the_Map_def edges_delete_def Map_delete_def split: mapref.splits option.splits)

lemma remaining_edges_delete:
  assumes "iter_next it e = Some ((c, tv), it')"
  shows "remaining it' (edges_delete r e c) = remaining it' e"
proof (cases it)
  case (Snapshot xs)
  with assms show ?thesis
    by (auto simp: iter_next_def remaining_def split: list.splits)
next
  case (Live k)
  from assms[unfolded Live] show ?thesis
  proof (rule iter_next_Live)
    fix pre post
    assume d: "it' = Live (k + length pre + 1)" "drop (k + length pre + 1) (the_Map e) = post"
      "the_Map e = take k (the_Map e) @ pre @ Some (c, tv) # post" "k < length (the_Map e)"
    show ?thesis
    proof (cases r)
      case LinearRef
      then show ?thesis by (simp add: remaining_def d(1) the_Map_edges_delete)
    next
      case MapRef
      obtain B where B: "slots_delete ((take k (the_Map e) @ pre) @ Some (c, tv) # post) c = B @ post"
        "length B = Suc (length (take k (the_Map e) @ pre))"
        using slots_delete_prefix[of "take k (the_Map e) @ pre" c tv post] by blast
      from B(2) d(4) have "length B = k + length pre + 1" by simp
      with B(1) d(3) have "drop (k + length pre + 1) (slots_delete (the_Map e) c) = post"
        by simp
      with d(2) show ?thesis
        by (simp add: remaining_def d(1) the_Map_edges_delete MapRef)
    qed
  qed
qed

lemma remaining_iter_start: "remaining (iter_start (field_ref e) e) e = entries e"
  by (auto simp: remaining_def iter_start_def field_ref_def entries_def the_Map_def
      split: option.splits)

subsection \<open>Every live consumer is marked\<close>

lemma consumers_of_upd [simp]:
  "consumers_of (upd_consumers q f s) q = f (consumers_of s q)"
  "consumers_of (upd_producers i g s) q = consumers_of s q"
  by (auto simp: consumers_of_def upd_consumers_def upd_producers_def split: producer.splits)

lemma live_edge_cong:
  "p_reclaimed (pipelines s' (fst e)) = p_reclaimed (pipelines s (fst e)) \<Longrightarrow>
   p_trackingVersion (pipelines s' (fst e)) = p_trackingVersion (pipelines s (fst e)) \<Longrightarrow>
   live_edge s' e = live_edge s e"
  by (simp add: live_edge_def)

lemma notified_live_edge: "notified q s s' \<Longrightarrow> live_edge s' e = live_edge s e"
  by (rule live_edge_cong) (simp_all add: notified_def)

lemma notified_keeps_stale:
  "notified q s s' \<Longrightarrow> p_stale (pipelines s i) \<noteq> StaleFalse \<Longrightarrow> p_stale (pipelines s' i) \<noteq> StaleFalse"
  by (simp add: notified_def)

lemma notifyLoop_marks:
  "notifyLoop n (V j) r it s = Ok u s' \<Longrightarrow> e \<in> set (remaining it (consumers_of s (V j)))
     \<Longrightarrow> live_edge s e \<Longrightarrow> p_stale (pipelines s' (fst e)) \<noteq> StaleFalse"
proof (induction n arbitrary: it s)
  case 0
  then show ?case by simp
next
  case (Suc n)
  show ?case
  proof (cases "iter_next it (consumers_of s (V j))")
    case None
    with Suc.prems(2) show ?thesis by (simp add: iter_next_None)
  next
    case (Some a)
    obtain c tv it' where a: "a = ((c, tv), it')" by (metis prod.exhaust)
    note nx = Some[unfolded a]
    from Suc.prems(2) have mem: "e = (c, tv) \<or> e \<in> set (remaining it' (consumers_of s (V j)))"
      by (simp add: iter_next_Some[OF nx])
    show ?thesis
    proof (cases "live_edge s (c, tv)")
      case False
      let ?s1 = "upd_consumers (V j) (\<lambda>e. edges_delete r e c) s"
      let ?s2 = "if p_reclaimed (pipelines ?s1 c) then ?s1
                 else upd_producers c (\<lambda>e. edges_delete (field_ref e) e (V j)) ?s1"
      from False Suc.prems(1) have run: "notifyLoop n (V j) r it' ?s2 = Ok u s'"
        by (simp add: notifyLoop_body_def Let_def nx live_edge_def split: if_splits)
      have rel: "notified (V j) s ?s2"
        by (auto intro: notified_upd_consumers notified_trans[OF notified_upd_consumers notified_upd_producers])
      have c2: "consumers_of ?s2 (V j) = edges_delete r (consumers_of s (V j)) c"
        by simp
      from mem False Suc.prems(3) have "e \<in> set (remaining it' (consumers_of s (V j)))" by auto
      then have "e \<in> set (remaining it' (consumers_of ?s2 (V j)))"
        unfolding c2 by (simp add: remaining_edges_delete[OF nx])
      moreover have "live_edge ?s2 e"
        using Suc.prems(3) notified_live_edge[OF rel] by simp
      ultimately show ?thesis by (rule Suc.IH[OF run])
    next
      case True
      with Suc.prems(1) obtain s1 where
        n1: "notify n c (Some (V j)) s = Ok () s1" and run: "notifyLoop n (V j) r it' s1 = Ok u s'"
        by (cases "notify n c (Some (V j)) s")
           (auto simp: notifyLoop_body_def Let_def nx live_edge_def and_then_def)
      note rel1 = notify_notified[OF n1]
      from rel1 have c1: "consumers_of s1 (V j) = consumers_of s (V j)"
        by (simp add: notified_def consumers_of_def)
      from mem show ?thesis
      proof
        assume "e = (c, tv)"
        with notify_marks[OF n1] notified_keeps_stale[OF notifyLoop_notified[OF run]]
        show ?thesis by simp
      next
        assume "e \<in> set (remaining it' (consumers_of s (V j)))"
        then have "e \<in> set (remaining it' (consumers_of s1 (V j)))" by (simp add: c1)
        moreover have "live_edge s1 e"
          using Suc.prems(3) notified_live_edge[OF rel1] by simp
        ultimately show ?thesis by (rule Suc.IH[OF run])
      qed
    qed
  qed
qed

lemma producerNotifyConsumers_marks:
  assumes "producerNotifyConsumers n (V j) s = Ok u s'"
    and "e \<in> set (entries (v_consumers (valuePipelines s j)))" and "live_edge s e"
  shows "p_stale (pipelines s' (fst e)) \<noteq> StaleFalse"
proof (cases n)
  case 0
  with assms show ?thesis by simp
next
  case (Suc m)
  let ?e = "consumers_of s (V j)"
  from assms(1) Suc have "notifyLoop m (V j) (field_ref ?e) (iter_start (field_ref ?e) ?e) s = Ok u s'"
    by (simp add: producerNotifyConsumers_body_def Let_def)
  moreover from assms(2) have "e \<in> set (remaining (iter_start (field_ref ?e) ?e) ?e)"
    by (simp add: remaining_iter_start consumers_of_def)
  ultimately show ?thesis using assms(3) by (rule notifyLoop_marks)
qed

lemmas body_defs = checkForActuallyChangedValue_body_def recomputeValue_body_def get_value_body_def
  notify_body_def setValue_body_def producerNotifyConsumers_body_def notifyLoop_body_def
  consumerPollValueStatus_body_def pollLoop_body_def producerPollStatus_body_def run_body_def

lemmas eval_defs = initial_state_def Pipeline_new_def ValuePipeline_new_def edges_new_def
  LinearMap_new_def upd_defs producerAccessed_def setActiveConsumer_def and_then_def
  try_finally_def consumers_of_def valueVersion_of_def edges_get_def edges_set_def
  edges_delete_def edges_size_def field_ref_def upgrade_def iter_start_def iter_next_def
  LinearMap_get_def LinearMap_set_def LinearMap_delete_def the_Map_def perform_def
  updateValue_def mutateValue_def MiddlePipe_def MOD_FACTOR_def

subsection \<open>Deleting from a map\<close>

lemma slots_get_None_iff: "slots_get m k = None \<longleftrightarrow> k \<notin> fst ` set (toTuples m)"
  by (induction m k rule: slots_get.induct) (auto simp: image_iff)

lemma slots_has_iff: "slots_has m k \<longleftrightarrow> k \<in> fst ` set (toTuples m)"
  by (induction m k rule: slots_has.induct) (auto simp: image_iff)

lemma slots_delete_absent: "k \<notin> fst ` set (toTuples m) \<Longrightarrow> slots_delete m k = m"
  by (induction m k rule: slots_delete.induct) (auto simp: image_iff)

lemma toTuples_slots_delete_subset:
  "set (toTuples (slots_delete m k)) \<subseteq> set (toTuples m)"
  by (induction m k rule: slots_delete.induct) auto

lemma distinct_slots_delete:
  "distinct (map fst (toTuples m)) \<Longrightarrow> distinct (map fst (toTuples (slots_delete m k)))"
proof (induction m k rule: slots_delete.induct)
  case (3 k' v xs key)
  show ?case
  proof (cases "k' = key")
    case True
    with 3 show ?thesis by simp
  next
    case False
    have "k' \<notin> fst ` set (toTuples (slots_delete xs key))"
      using 3(2) toTuples_slots_delete_subset[of xs key] by (auto simp: image_iff)
    with False 3 show ?thesis by simp
  qed
qed simp_all

lemma slots_get_delete_same:
  "distinct (map fst (toTuples m)) \<Longrightarrow> slots_get (slots_delete m k) k = None"
  by (induction m k rule: slots_delete.induct) (auto simp: slots_get_None_iff image_iff)

lemma slots_get_delete_other: "k \<noteq> k' \<Longrightarrow> slots_get (slots_delete m k') k = slots_get m k"
  by (induction m k' rule: slots_delete.induct) auto

lemma field_ref_edges_delete [simp]: "field_ref (edges_delete r e k) = field_ref e"
  by (simp add: field_ref_def edges_delete_def split: mapref.splits option.splits)

lemma LinearMap_get_delete_same:
  assumes "distinct (map fst (toTuples (internalArray l)))"
  shows "LinearMap_get (LinearMap_delete l k) k = None"
proof (cases "slots_has (internalArray l) k")
  case True
  with assms show ?thesis
    by (simp add: LinearMap_get_def LinearMap_delete_def slots_get_delete_same)
next
  case False
  then have "slots_get (internalArray l) k = None"
    by (simp add: slots_has_iff slots_get_None_iff)
  with False show ?thesis by (simp add: LinearMap_get_def LinearMap_delete_def)
qed

lemma edges_get_delete_same:
  assumes "distinct_keys e"
  shows "edges_get r (edges_delete r e k) k = None"
proof (cases r)
  case LinearRef
  with assms show ?thesis
    by (simp add: distinct_keys_def edges_get_def edges_delete_def LinearMap_get_delete_same)
next
  case MapRef
  with assms show ?thesis
    by (cases "hashed e")
       (simp_all add: distinct_keys_def edges_get_def edges_delete_def Map_get_def Map_delete_def
          the_Map_def slots_get_delete_same)
qed

lemma edges_get_delete_other:
  "k \<noteq> k' \<Longrightarrow> edges_get r (edges_delete r' e k') k = edges_get r e k"
  by (auto simp: edges_get_def edges_delete_def LinearMap_get_def LinearMap_delete_def Map_get_def
      Map_delete_def the_Map_def slots_get_delete_other
      split: mapref.splits option.splits)

lemma edges_get_delete_None:
  assumes "edges_get r e k = None"
  shows "edges_get r (edges_delete r' e k') k = None"
proof (cases "k = k'")
  case False
  with assms show ?thesis by (simp add: edges_get_delete_other)
next
  case True
  with assms show ?thesis
    by (auto simp: edges_get_def edges_delete_def LinearMap_get_def LinearMap_delete_def Map_get_def
        Map_delete_def the_Map_def slots_get_None_iff slots_delete_absent slots_has_iff
        split: mapref.splits option.splits)
qed

lemma distinct_keys_edges_delete: "distinct_keys e \<Longrightarrow> distinct_keys (edges_delete r e k)"
  by (auto simp: distinct_keys_def edges_delete_def LinearMap_delete_def Map_delete_def the_Map_def
      distinct_slots_delete split: mapref.splits option.splits)

subsection \<open>Dead edges in the polling loop\<close>

lemma unlink_simps [simp]:
  "p_producers (pipelines (unlink r c q s) c) = edges_delete r (p_producers (pipelines s c)) q"
  "p_trackingVersion (pipelines (unlink r c q s) i) = p_trackingVersion (pipelines s i)"
  "consumers_of (unlink r c q s) q' =
     (if q' = q then edges_delete (field_ref (consumers_of s q)) (consumers_of s q) c
      else consumers_of s q')"
  by (auto simp: unlink_def upd_consumers_def upd_producers_def consumers_of_def
      split: producer.splits)

lemma wf_maps_unlink: "wf_maps s \<Longrightarrow> wf_maps (unlink r c q s)"
  by (auto simp: wf_maps_def unlink_def upd_consumers_def upd_producers_def
      distinct_keys_edges_delete split: producer.splits)

lemma wf_maps_consumers_of: "wf_maps s \<Longrightarrow> distinct_keys (consumers_of s q)"
  by (auto simp: wf_maps_def consumers_of_def split: producer.splits)

lemma dead_edge_unlink:
  assumes "wf_maps s" and "dead_edge s c q'"
  shows "dead_edge (unlink r c q s) c q'"
  using assms by (auto simp: dead_edge_def edges_get_delete_same wf_maps_consumers_of)

lemma unlinked_unlink_same:
  assumes "wf_maps s"
  shows "unlinked r c q (unlink r c q s)"
  using assms by (auto simp: unlinked_def edges_get_delete_same wf_maps_consumers_of wf_maps_def)

lemma unlinked_unlink:
  assumes "unlinked r c q0 s"
  shows "unlinked r c q0 (unlink r c q s)"
  using assms by (auto simp: unlinked_def edges_get_delete_None)

lemma pollLoop_dead_step:
  assumes "iter_next it (p_producers (pipelines s c)) = Some ((q, vv), it')"
    and "Some q \<noteq> skip" and "dead_edge s c q"
  shows "pollLoop (Suc n) c r it skip s = pollLoop n c r it' skip (unlink r c q s)"
  using assms by (simp add: pollLoop_body_def dead_edge_def unlink_def Let_def)

lemma pollLoop_skip_step:
  assumes "iter_next it (p_producers (pipelines s c)) = Some ((q, vv), it')" and "Some q = skip"
  shows "pollLoop (Suc n) c r it skip s = pollLoop n c r it' skip s"
  using assms by (simp add: pollLoop_body_def)

lemma pollLoop_all_dead:
  "wf_maps s \<Longrightarrow>
   \<forall>e\<in>set (remaining it (p_producers (pipelines s c))). Some (fst e) = skip \<or> dead_edge s c (fst e) \<Longrightarrow>
   length (remaining it (p_producers (pipelines s c))) < n \<Longrightarrow>
   \<exists>s'. pollLoop n c r it skip s = Ok False s' \<and> wf_maps s'
        \<and> (\<forall>q. unlinked r c q s \<longrightarrow> unlinked r c q s')
        \<and> (\<forall>e\<in>set (remaining it (p_producers (pipelines s c))).
              Some (fst e) \<noteq> skip \<longrightarrow> unlinked r c (fst e) s')"
proof (induction n arbitrary: it s)
  case 0
  then show ?case by simp
next
  case (Suc n)
  let ?e = "p_producers (pipelines s c)"
  show ?case
  proof (cases "iter_next it ?e")
    case None
    with Suc.prems(1) show ?thesis
      by (simp add: pollLoop_body_def iter_next_None)
  next
    case (Some a)
    obtain q vv it' where a: "a = ((q, vv), it')" by (metis prod.exhaust)
    note nx = Some[unfolded a]
    note rem = iter_next_Some[OF nx]
    show ?thesis
    proof (cases "Some q = skip")
      case True
      from Suc.prems(2,3) have
        "\<forall>e\<in>set (remaining it' ?e). Some (fst e) = skip \<or> dead_edge s c (fst e)"
        "length (remaining it' ?e) < n"
        by (simp_all add: rem)
      from Suc.IH[OF Suc.prems(1) this] obtain s' where
        "pollLoop n c r it' skip s = Ok False s'" "wf_maps s'"
        "\<forall>q. unlinked r c q s \<longrightarrow> unlinked r c q s'"
        "\<forall>e\<in>set (remaining it' ?e). Some (fst e) \<noteq> skip \<longrightarrow> unlinked r c (fst e) s'"
        by blast
      moreover note pollLoop_skip_step[OF nx True, of n r] True
      ultimately show ?thesis
        by (intro exI[of _ s']) (simp add: rem)
    next
      case False
      with Suc.prems(2) have dead: "dead_edge s c q" by (simp add: rem)
      let ?s2 = "unlink r c q s"
      let ?e2 = "p_producers (pipelines ?s2 c)"
      have r2: "remaining it' ?e2 = remaining it' ?e"
        by (simp add: remaining_edges_delete[OF nx])
      have wf2: "wf_maps ?s2" by (rule wf_maps_unlink[OF Suc.prems(1)])
      from Suc.prems(2,3) have
        "\<forall>e\<in>set (remaining it' ?e2). Some (fst e) = skip \<or> dead_edge ?s2 c (fst e)"
        "length (remaining it' ?e2) < n"
        unfolding r2 by (auto simp: rem intro: dead_edge_unlink[OF Suc.prems(1)])
      from Suc.IH[OF wf2 this] obtain s' where s':
        "pollLoop n c r it' skip ?s2 = Ok False s'" "wf_maps s'"
        "\<forall>q. unlinked r c q ?s2 \<longrightarrow> unlinked r c q s'"
        "\<forall>e\<in>set (remaining it' ?e2). Some (fst e) \<noteq> skip \<longrightarrow> unlinked r c (fst e) s'"
        by blast
      have "unlinked r c q s'"
        using s'(3) unlinked_unlink_same[OF Suc.prems(1)] by blast
      moreover have "\<forall>q0. unlinked r c q0 s \<longrightarrow> unlinked r c q0 s'"
        using s'(3) unlinked_unlink by blast
      ultimately show ?thesis
        using s'(1,2,4) pollLoop_dead_step[OF nx False dead, of n r]
        by (intro exI[of _ s']) (simp add: rem remaining_edges_delete[OF nx])
    qed
  qed
qed

subsection \<open>No operation puts a key into a map twice\<close>

lemma keys_slots_update: "map fst (toTuples (slots_update m k v)) = map fst (toTuples m)"
  by (induction m k v rule: slots_update.induct) auto

lemma keys_slots_fill: "set (map fst (toTuples (slots_fill m k v))) = insert k (set (map fst (toTuples m)))"
  by (induction m k v rule: slots_fill.induct) auto

lemma distinct_slots_fill:
  "distinct (map fst (toTuples m)) \<Longrightarrow> k \<notin> fst ` set (toTuples m)
     \<Longrightarrow> distinct (map fst (toTuples (slots_fill m k v)))"
proof (induction m k v rule: slots_fill.induct)
  case (3 e xs key "value")
  then show ?case using keys_slots_fill[of xs key "value"] by (auto simp: image_iff)
qed auto

lemma toTuples_append: "toTuples (xs @ ys) = toTuples xs @ toTuples ys"
  by (induction xs rule: toTuples.induct) auto

lemma toTuples_map_Some: "toTuples (map Some xs) = xs"
  by (induction xs) auto

lemma distinct_keys_edges_set: "distinct_keys e \<Longrightarrow> distinct_keys (edges_set r e k v)"
  by (auto simp: distinct_keys_def edges_set_def LinearMap_set_def Map_set_def the_Map_def
      keys_slots_update distinct_slots_fill slots_has_iff toTuples_append image_iff
      split: mapref.splits option.splits)

lemma distinct_keys_upgrade: "distinct_keys e \<Longrightarrow> distinct_keys (upgrade e)"
  by (auto simp: distinct_keys_def upgrade_def the_Map_def Map_new_def toTuples_map_Some)

lemma wf_maps_upd_consumers:
  "wf_maps s \<Longrightarrow> (\<And>e. distinct_keys e \<Longrightarrow> distinct_keys (f e)) \<Longrightarrow> wf_maps (upd_consumers q f s)"
  by (auto simp: wf_maps_def upd_consumers_def split: producer.splits)

lemma wf_maps_upd_producers:
  "wf_maps s \<Longrightarrow> (\<And>e. distinct_keys e \<Longrightarrow> distinct_keys (f e)) \<Longrightarrow> wf_maps (upd_producers i f s)"
  by (auto simp: wf_maps_def upd_producers_def)

lemma wf_maps_producerAccessed: "wf_maps s \<Longrightarrow> wf_maps (producerAccessed q s)"
  unfolding producerAccessed_def Let_def
  by (cases "activeConsumer s")
     (auto intro!: wf_maps_upd_consumers wf_maps_upd_producers distinct_keys_edges_set
        distinct_keys_upgrade)

lemma wf_maps_cong:
  assumes "\<And>j. v_consumers (valuePipelines s' j) = v_consumers (valuePipelines s j)"
    and "\<And>i. p_consumers (pipelines s' i) = p_consumers (pipelines s i)"
    and "\<And>i. p_producers (pipelines s' i) = p_producers (pipelines s i)"
  shows "wf_maps s' = wf_maps s"
  using assms by (simp add: wf_maps_def)

lemma wf_maps_engine: "good2 (\<lambda>s s'. wf_maps s \<longrightarrow> wf_maps s') (\<lambda>s s'. wf_maps s \<longrightarrow> wf_maps s') (engine n)"
proof (rule engine_rel)
  show "wf_maps s \<longrightarrow> wf_maps (producerAccessed q s)" for q and s :: "'a state"
    by (simp add: wf_maps_producerAccessed)
  show "wf_maps s \<longrightarrow> wf_maps (upd_consumers q (\<lambda>e. edges_delete (g e) e c) s)"
    for q g c and s :: "'a state"
    by (auto intro: wf_maps_upd_consumers distinct_keys_edges_delete)
  show "wf_maps s \<longrightarrow> wf_maps (upd_producers i (\<lambda>e. edges_delete (g e) e q) s)"
    for q g i and s :: "'a state"
    by (auto intro: wf_maps_upd_producers distinct_keys_edges_delete)
  show "wf_maps s \<longrightarrow> wf_maps (s5\<lparr>activeConsumer := activeConsumer s\<rparr>)"
    if "wf_maps (recompute_begin i s) \<longrightarrow> wf_maps s5" for i and s s5 :: "'a state"
  proof -
    have "wf_maps (recompute_begin i s) = wf_maps s" by (rule wf_maps_cong) simp_all
    moreover have "wf_maps (s5\<lparr>activeConsumer := activeConsumer s\<rparr>) = wf_maps s5"
      by (rule wf_maps_cong) simp_all
    ultimately show ?thesis using that by simp
  qed
  show "wf_maps s \<longrightarrow> wf_maps (recompute_finish i (p_value (pipelines s i)) x (s5\<lparr>activeConsumer := activeConsumer s\<rparr>))"
    if "wf_maps (recompute_begin i s) \<longrightarrow> wf_maps s5" for i x and s s5 :: "'a state"
  proof -
    have "wf_maps (recompute_begin i s) = wf_maps s" by (rule wf_maps_cong) simp_all
    moreover have "wf_maps (recompute_finish i (p_value (pipelines s i)) x (s5\<lparr>activeConsumer := activeConsumer s\<rparr>)) = wf_maps s5"
      by (rule wf_maps_cong) (simp_all add: recompute_finish_def Let_def)
    ultimately show ?thesis using that by simp
  qed
  show "wf_maps s \<longrightarrow> wf_maps (upd_pipeline i (\<lambda>p. p\<lparr>p_stale := StaleFalse\<rparr>) s1)"
    if "wf_maps s \<longrightarrow> wf_maps s1" for i and s s1 :: "'a state"
  proof -
    have "wf_maps (upd_pipeline i (\<lambda>p. p\<lparr>p_stale := StaleFalse\<rparr>) s1) = wf_maps s1"
      by (rule wf_maps_cong) simp_all
    with that show ?thesis by simp
  qed
  show "wf_maps s \<longrightarrow> wf_maps (upd_pipeline i (\<lambda>p. p\<lparr>p_stale := x\<rparr>) s)"
    for i x and s :: "'a state"
  proof -
    have "wf_maps (upd_pipeline i (\<lambda>p. p\<lparr>p_stale := x\<rparr>) s) = wf_maps s"
      by (rule wf_maps_cong) simp_all
    then show ?thesis by simp
  qed
  show "wf_maps s \<longrightarrow> wf_maps (upd_value j (\<lambda>v. v\<lparr>v_valueVersion := v_valueVersion v + 1\<rparr>)
                    (upd_value j (\<lambda>v. v\<lparr>v_value := x\<rparr>) s))" for j x and s :: "'a state"
  proof -
    have "wf_maps (upd_value j (\<lambda>v. v\<lparr>v_valueVersion := v_valueVersion v + 1\<rparr>)
                    (upd_value j (\<lambda>v. v\<lparr>v_value := x\<rparr>) s)) = wf_maps s"
      by (rule wf_maps_cong) simp_all
    then show ?thesis by simp
  qed
qed simp_all

lemmas wf_kept = good2D[OF wf_maps_engine]

lemma wf_maps_initial: "wf_maps (initial_state leaf calc)"
  by (simp add: wf_maps_def initial_state_def ValuePipeline_new_def Pipeline_new_def edges_new_def
      LinearMap_new_def distinct_keys_def the_Map_def)

lemma res_all_wf_and_then:
  assumes "res_all wf_maps r" and "\<And>x s1. wf_maps s1 \<Longrightarrow> res_all wf_maps (f x s1)"
  shows "res_all wf_maps (and_then r f)"
  using assms by (cases r) (auto simp: and_then_def)

lemma wf_res: "res_rel (\<lambda>s s'. wf_maps s \<longrightarrow> wf_maps s') (\<lambda>s s'. wf_maps s \<longrightarrow> wf_maps s') s r
  \<Longrightarrow> wf_maps s \<Longrightarrow> res_all wf_maps r"
  by (cases r) auto

lemma perform_wf: "wf_maps s \<Longrightarrow> res_all wf_maps (perform n operation s)"
proof (cases operation)
  case (GetValue q)
  assume "wf_maps s"
  then show ?thesis unfolding perform_def GetValue
    by (auto intro!: res_all_wf_and_then wf_res[OF wf_kept(3)])
next
  case (SetValue j x)
  assume "wf_maps s"
  then show ?thesis unfolding perform_def SetValue
    by (auto intro!: res_all_wf_and_then wf_res[OF wf_kept(5)])
next
  case (UpdateValue j u)
  assume "wf_maps s"
  then show ?thesis unfolding perform_def UpdateValue updateValue_def
    by (auto intro!: res_all_wf_and_then wf_res[OF wf_kept(11)] wf_res[OF wf_kept(5)])
next
  case (MutateValue j m)
  assume w: "wf_maps s"
  have "wf_maps (upd_value j f t) = wf_maps t" if "\<And>v. v_consumers (f v) = v_consumers v"
    for f and t :: "'a state"
    by (rule wf_maps_cong) (simp_all add: that)
  with w show ?thesis unfolding perform_def MutateValue mutateValue_def Let_def
    by (auto intro!: res_all_wf_and_then wf_res[OF wf_kept(11)] wf_res[OF wf_kept(6)])
next
  case (Reclaim i)
  assume w: "wf_maps s"
  have "wf_maps (upd_pipeline i (\<lambda>p. p\<lparr>p_reclaimed := True\<rparr>) s) = wf_maps s"
    by (rule wf_maps_cong) simp_all
  with w show ?thesis unfolding perform_def Reclaim by simp
qed

lemma perform_all_wf: "wf_maps s \<Longrightarrow> perform_all n ops s = Some s' \<Longrightarrow> wf_maps s'"
proof (induction ops arbitrary: s)
  case Nil
  then show ?case by simp
next
  case (Cons operation ops)
  from perform_wf[OF Cons.prems(1), of n operation] Cons.prems(2) show ?case
    by (cases "perform n operation s") (auto intro: Cons.IH)
qed

subsection \<open>Reading a pipeline that is being computed\<close>

lemma get_value_computing:
  assumes "p_value (pipelines s t) = COMPUTING" and "p_stale (pipelines s t) \<noteq> StaleFalse"
    and "3 \<le> n"
  shows "get_value n (P t) s = Err Circular s"
proof -
  from assms(3) obtain k where "n = Suc (Suc (Suc k))"
    by (cases n; cases "n - 1"; cases "n - 2") auto
  with assms(1,2) show ?thesis
    by (simp add: get_value_body_def checkForActuallyChangedValue_body_def recomputeValue_body_def
        and_then_def)
qed

subsection \<open>A read leaves the pipeline clean\<close>

lemma checkForActuallyChangedValue_clean:
  assumes "checkForActuallyChangedValue n i s = Ok u s'"
  shows "p_stale (pipelines s' i) = StaleFalse"
proof (cases n)
  case 0
  with assms show ?thesis by simp
next
  case (Suc m)
  have rc: "p_stale (pipelines t' i) = StaleFalse" if "recomputeValue m i t = Ok v t'" for t t' v
  proof (cases m)
    case 0
    with that show ?thesis by simp
  next
    case (Suc k)
    with that show ?thesis
      by (auto simp: recomputeValue_body_alt and_then_def try_finally_def recompute_finish_def
          Let_def split: if_splits result.splits)
  qed
  from assms Suc show ?thesis
    by (auto simp: checkForActuallyChangedValue_body_def and_then_def
        split: if_splits result.splits dest: rc)
qed

subsection \<open>The example graphs, evaluated\<close>

lemma sum_graph_read_eval:
  "get_value 8 (P 0) sum_graph = Ok (Val 0) sum_graph_read"
  unfolding sum_graph_read_def
  by (simp add: numeral_eq_Suc body_defs eval_defs sum_graph_def Let_def)

lemma sum_graph_read_fields:
  "valuePipelines sum_graph_read 0 =
     \<lparr>v_consumers = \<lparr>linear = \<lparr>internalArray = [Some (0, 2)], size_field = 1\<rparr>, hashed = None\<rparr>,
      v_valueVersion = 1, v_value = Val 0\<rparr>"
  "valuePipelines sum_graph_read (Suc 0) =
     \<lparr>v_consumers = \<lparr>linear = \<lparr>internalArray = [Some (0, 2)], size_field = 1\<rparr>, hashed = None\<rparr>,
      v_valueVersion = 1, v_value = Val 0\<rparr>"
  "pipelines sum_graph_read 0 =
     \<lparr>p_consumers = \<lparr>linear = \<lparr>internalArray = [], size_field = 0\<rparr>, hashed = None\<rparr>,
      p_producers = \<lparr>linear = \<lparr>internalArray = [Some (V 0, 1), Some (V 1, 1)], size_field = 2\<rparr>,
                     hashed = None\<rparr>,
      p_valueVersion = 2, p_trackingVersion = 2, p_stale = StaleFalse, p_value = Val 0,
      p_calculate = MiddlePipe [V 0, V 1], p_reclaimed = False\<rparr>"
  "activeConsumer sum_graph_read = None"
  "calculationsCount sum_graph_read = 1"
  unfolding sum_graph_read_def
  by (simp_all add: numeral_eq_Suc body_defs eval_defs sum_graph_def Let_def)

lemma sum_graph_toggled_fields:
  "valuePipelines sum_graph_toggled 0 =
     \<lparr>v_consumers = \<lparr>linear = \<lparr>internalArray = [Some (0, 2)], size_field = 1\<rparr>, hashed = None\<rparr>,
      v_valueVersion = 3, v_value = Val 0\<rparr>"
  "valuePipelines sum_graph_toggled (Suc 0) =
     \<lparr>v_consumers = \<lparr>linear = \<lparr>internalArray = [Some (0, 2)], size_field = 1\<rparr>, hashed = None\<rparr>,
      v_valueVersion = 1, v_value = Val 0\<rparr>"
  "pipelines sum_graph_toggled 0 =
     \<lparr>p_consumers = \<lparr>linear = \<lparr>internalArray = [], size_field = 0\<rparr>, hashed = None\<rparr>,
      p_producers = \<lparr>linear = \<lparr>internalArray = [Some (V 0, 1), Some (V 1, 1)], size_field = 2\<rparr>,
                     hashed = None\<rparr>,
      p_valueVersion = 2, p_trackingVersion = 2, p_stale = StaleBy (V 0), p_value = Val 0,
      p_calculate = MiddlePipe [V 0, V 1], p_reclaimed = False\<rparr>"
  "activeConsumer sum_graph_toggled = None"
  "calculationsCount sum_graph_toggled = 1"
  unfolding sum_graph_toggled_def
  by (simp_all add: numeral_eq_Suc body_defs sum_graph_read_fields upd_defs and_then_def perform_def
        consumers_of_def field_ref_def iter_start_def iter_next_def edges_delete_def Let_def)

lemma dynamic_graph_polled_eval:
  "perform_all 12 [GetValue (P 0), SetValue 0 (Val 0), GetValue (P 0), SetValue 2 (Val 1)]
     dynamic_graph = Some dynamic_graph_polled"
proof -
  have "perform_all 12 [GetValue (P 0), SetValue 0 (Val 0), GetValue (P 0), SetValue 2 (Val 1)]
     dynamic_graph \<noteq> None"
    by (simp add: numeral_eq_Suc body_defs eval_defs dynamic_graph_def dynamic_out_def Let_def)
  then show ?thesis
    unfolding dynamic_graph_polled_def by (auto split: option.splits)
qed

lemma dynamic_graph_polled_fields:
  "pipelines dynamic_graph_polled 0 =
     \<lparr>p_consumers = \<lparr>linear = \<lparr>internalArray = [], size_field = 0\<rparr>, hashed = None\<rparr>,
      p_producers =
        \<lparr>linear = \<lparr>internalArray = [Some (V 0, 2), Some (V 1, 1), Some (P 1, 2)],
                    size_field = 3\<rparr>,
         hashed = None\<rparr>,
      p_valueVersion = 2, p_trackingVersion = 3, p_stale = StaleBy (P 1), p_value = Val 0,
      p_calculate = dynamic_out, p_reclaimed = False\<rparr>"
  "valuePipelines dynamic_graph_polled (Suc 0) =
     \<lparr>v_consumers = \<lparr>linear = \<lparr>internalArray = [Some (0, 2)], size_field = 1\<rparr>, hashed = None\<rparr>,
      v_valueVersion = 1, v_value = Val 0\<rparr>"
  unfolding dynamic_graph_polled_def
  by (simp_all add: numeral_eq_Suc body_defs eval_defs dynamic_graph_def dynamic_out_def Let_def)

lemma wf_maps_dynamic_graph_polled: "wf_maps dynamic_graph_polled"
  by (rule perform_all_wf[OF _ dynamic_graph_polled_eval])
     (simp add: dynamic_graph_def wf_maps_initial)

section \<open>Reads are right\<close>

subsection \<open>More fuel changes no result\<close>










subsection \<open>Looking an edge up\<close>

lemma slots_get_update: "slots_has m k \<Longrightarrow> slots_get (slots_update m k v) k' = (if k' = k then Some v else slots_get m k')"
  by (induction m k v rule: slots_update.induct) auto

lemma slots_get_fill:
  "\<not> slots_has m k \<Longrightarrow> slots_get (slots_fill m k v) k' = (if k' = k then Some v else slots_get m k')"
  by (induction m k v rule: slots_fill.induct) (auto simp: slots_get_None_iff slots_has_iff)

lemma slots_get_append:
  "slots_get (m @ m') k = (case slots_get m k of None \<Rightarrow> slots_get m' k | Some v \<Rightarrow> Some v)"
  by (induction m k rule: slots_get.induct) auto

lemma slots_get_map_Some: "slots_get (map Some (toTuples m)) k = slots_get m k"
  by (induction m k rule: slots_get.induct) auto


lemma field_ref_edges_set [simp]: "field_ref (edges_set r e k v) = field_ref e"
  by (simp add: field_ref_def edges_set_def split: mapref.splits option.splits)

lemma lookup_upgrade [simp]: "lookup (upgrade e) k = lookup e k"
  by (auto simp: lookup_def upgrade_def field_ref_def edges_get_def the_Map_def Map_get_def
      Map_new_def LinearMap_get_def slots_get_map_Some split: option.splits)

lemma slots_has_get: "slots_has m k \<longleftrightarrow> slots_get m k \<noteq> None"
  by (induction m k rule: slots_get.induct) auto

lemma Map_get_set: "slots_get (Map_set m k v) k' = (if k' = k then Some v else slots_get m k')"
proof (cases "slots_has m k")
  case True
  then show ?thesis by (simp add: Map_set_def slots_get_update)
next
  case False
  then have "slots_get m k = None" by (simp add: slots_has_get)
  with False show ?thesis
    by (cases "slots_get m k'") (auto simp: Map_set_def slots_get_append)
qed

lemma lookup_set [simp]:
  "lookup (edges_set (field_ref e) e k v) k' = (if k' = k then Some v else lookup e k')"
proof (cases "hashed e")
  case None
  then show ?thesis
    by (simp add: lookup_def field_ref_def edges_set_def edges_get_def LinearMap_get_def
        LinearMap_set_def slots_get_update slots_get_fill)
next
  case (Some m)
  then show ?thesis
    by (simp add: lookup_def field_ref_def edges_set_def edges_get_def the_Map_def Map_get_def
        Map_get_set)
qed











subsection \<open>The edges after each step\<close>

lemma seen_upd_pipeline:
  "p_producers (f (pipelines s i)) = p_producers (pipelines s i) \<Longrightarrow> seen (upd_pipeline i f s) = seen s"
  by (auto simp: seen_def fun_eq_iff)

lemma tracked_upd_pipeline:
  "p_consumers (f (pipelines s i)) = p_consumers (pipelines s i) \<Longrightarrow> tracked (upd_pipeline i f s) = tracked s"
  by (auto simp: tracked_def consumers_of_def fun_eq_iff split: producer.splits)

lemma seen_upd_value [simp]: "seen (upd_value j g s) = seen s"
  by (auto simp: seen_def fun_eq_iff)

lemma tracked_upd_value:
  "v_consumers (g (valuePipelines s j)) = v_consumers (valuePipelines s j) \<Longrightarrow> tracked (upd_value j g s) = tracked s"
  by (auto simp: tracked_def consumers_of_def fun_eq_iff split: producer.splits)

lemma seen_more [simp]:
  "seen (s\<lparr>activeConsumer := a\<rparr>) = seen s"
  "seen (s\<lparr>calculationsCount := k\<rparr>) = seen s"
  by (auto simp: seen_def fun_eq_iff)

lemma tracked_more [simp]:
  "tracked (s\<lparr>activeConsumer := a\<rparr>) = tracked s"
  "tracked (s\<lparr>calculationsCount := k\<rparr>) = tracked s"
  by (auto simp: tracked_def consumers_of_def fun_eq_iff split: producer.splits)

lemma edges_recompute_begin [simp]:
  "seen (recompute_begin i s) = seen s" "tracked (recompute_begin i s) = tracked s"
  by (simp_all add: recompute_begin_def seen_upd_pipeline tracked_upd_pipeline)

lemma edges_recompute_finish [simp]:
  "seen (recompute_finish i old new s) = seen s" "tracked (recompute_finish i old new s) = tracked s"
  by (simp_all add: recompute_finish_def Let_def seen_upd_pipeline tracked_upd_pipeline)

lemma pipelines_recompute_finish:
  "pipelines (recompute_finish i old new s) =
     (pipelines s)(i := (pipelines s i)\<lparr>p_stale := StaleFalse, p_value := new,
        p_valueVersion := (if new = old then p_valueVersion (pipelines s i)
                           else p_valueVersion (pipelines s i) + 1)\<rparr>)"
  by (auto simp: recompute_finish_def Let_def fun_eq_iff)

lemma other_recompute_finish [simp]:
  "valuePipelines (recompute_finish i old new s) = valuePipelines s"
  "activeConsumer (recompute_finish i old new s) = activeConsumer s"
  by (simp_all add: recompute_finish_def Let_def)



lemma valuePipelines_producerAccessed_value [simp]:
  "valueVersion_of (producerAccessed q s) = valueVersion_of s"
  "value_of (producerAccessed q s) = value_of s"
  by (auto simp: valueVersion_of_def value_of_def fun_eq_iff split: producer.splits)




lemma fields_unlink [simp]:
  "p_value (pipelines (unlink r c q s) i) = p_value (pipelines s i)"
  "p_stale (pipelines (unlink r c q s) i) = p_stale (pipelines s i)"
  "p_valueVersion (pipelines (unlink r c q s) i) = p_valueVersion (pipelines s i)"
  "p_calculate (pipelines (unlink r c q s) i) = p_calculate (pipelines s i)"
  "p_reclaimed (pipelines (unlink r c q s) i) = p_reclaimed (pipelines s i)"
  "v_value (valuePipelines (unlink r c q s) j) = v_value (valuePipelines s j)"
  "v_valueVersion (valuePipelines (unlink r c q s) j) = v_valueVersion (valuePipelines s j)"
  "activeConsumer (unlink r c q s) = activeConsumer s"
  by (auto simp: unlink_def upd_producers_def upd_consumers_def split: producer.splits)

lemma value_unlink [simp]:
  "valueVersion_of (unlink r c q s) = valueVersion_of s"
  "value_of (unlink r c q s) = value_of s"
  by (auto simp: valueVersion_of_def value_of_def fun_eq_iff split: producer.splits)




subsection \<open>What each step does to the observations\<close>

lemma obs_stale [simp]:
  "seen (upd_pipeline c (\<lambda>p. p\<lparr>p_stale := x\<rparr>) s) = seen s"
  "tracked (upd_pipeline c (\<lambda>p. p\<lparr>p_stale := x\<rparr>) s) = tracked s"
  "live (upd_pipeline c (\<lambda>p. p\<lparr>p_stale := x\<rparr>) s) = live s"
  "settled (upd_pipeline c (\<lambda>p. p\<lparr>p_stale := x\<rparr>) s) = settled s"
  "valueVersion_of (upd_pipeline c (\<lambda>p. p\<lparr>p_stale := x\<rparr>) s) = valueVersion_of s"
  "value_of (upd_pipeline c (\<lambda>p. p\<lparr>p_stale := x\<rparr>) s) = value_of s"
  "wf_maps (upd_pipeline c (\<lambda>p. p\<lparr>p_stale := x\<rparr>) s) = wf_maps s"
  "sized_maps (upd_pipeline c (\<lambda>p. p\<lparr>p_stale := x\<rparr>) s) = sized_maps s"
  by (auto simp: seen_upd_pipeline tracked_upd_pipeline live_def settled_def valueVersion_of_def
      value_of_def wf_maps_def sized_maps_def fun_eq_iff split: producer.splits)

lemma obs_active [simp]:
  "live (s\<lparr>activeConsumer := a\<rparr>) = live s"
  "settled (s\<lparr>activeConsumer := a\<rparr>) = settled s"
  "up_to_date (s\<lparr>activeConsumer := a\<rparr>) = up_to_date s"
  "valueVersion_of (s\<lparr>activeConsumer := a\<rparr>) = valueVersion_of s"
  "value_of (s\<lparr>activeConsumer := a\<rparr>) = value_of s"
  "wf_maps (s\<lparr>activeConsumer := a\<rparr>) = wf_maps s"
  "sized_maps (s\<lparr>activeConsumer := a\<rparr>) = sized_maps s"
  by (auto simp: live_def settled_def up_to_date_def valueVersion_of_def value_of_def wf_maps_def
      sized_maps_def fun_eq_iff split: producer.splits)

lemma obs_begin [simp]:
  "live (recompute_begin i s) c q =
     (if c = i then tracked s q i = Some (p_trackingVersion (pipelines s i) + 1) else live s c q)"
  "settled (recompute_begin i s) c = (c \<noteq> i \<and> settled s c)"
  "up_to_date (recompute_begin i s) = up_to_date s"
  "valueVersion_of (recompute_begin i s) = valueVersion_of s"
  "wf_maps (recompute_begin i s) = wf_maps s"
  "sized_maps (recompute_begin i s) = sized_maps s"
  by (auto simp: live_def settled_def up_to_date_def valueVersion_of_def wf_maps_def
      sized_maps_def fun_eq_iff split: producer.splits)


lemma obs_finish [simp]:
  "live (recompute_finish i old new s) = live s"
  "settled (recompute_finish i old new s) c = (if c = i then \<exists>v. new = Val v else settled s c)"
  "valueVersion_of (recompute_finish i old new s) q =
     (if q = P i \<and> new \<noteq> old then valueVersion_of s q + 1 else valueVersion_of s q)"
  "value_of (recompute_finish i old new s) q = (if q = P i then new else value_of s q)"
  "up_to_date (recompute_finish i old new s) q = (q = P i \<or> up_to_date s q)"
  "wf_maps (recompute_finish i old new s) = wf_maps s"
  "sized_maps (recompute_finish i old new s) = sized_maps s"
  by (auto simp: live_def settled_def up_to_date_def valueVersion_of_def value_of_def wf_maps_def
      sized_maps_def pipelines_recompute_finish fun_eq_iff split: producer.splits)


lemma obs_producerAccessed [simp]:
  "settled (producerAccessed q s) = settled s"
  "up_to_date (producerAccessed q s) = up_to_date s"
  by (auto simp: settled_def up_to_date_def fun_eq_iff split: producer.splits)



lemma obs_unlink [simp]:
  "settled (unlink r c q s) = settled s"
  "up_to_date (unlink r c q s) = up_to_date s"
  by (auto simp: settled_def up_to_date_def fun_eq_iff split: producer.splits)



subsection \<open>Marking a pipeline clean\<close>








subsection \<open>Starting a recomputation\<close>



subsection \<open>Registering an edge\<close>


subsection \<open>Dropping a dead edge\<close>



subsection \<open>Finishing a recomputation\<close>


subsection \<open>What a read leaves alone\<close>

lemma quiet_refl [simp]: "quiet rank r A s s"
  by (simp add: quiet_def)












lemma agrees_refl [simp]: "agrees s H H"
  by (simp add: agrees_def)







lemma pruned_refl [simp]: "pruned c s s"
  by (simp add: pruned_def)




subsection \<open>Enough fuel\<close>


lemma bound_simps [simp]: "bound rank (V j) = 0" "bound rank (P i) = Suc (rank i)"
  by (simp_all add: bound_def)



subsection \<open>Polling one producer\<close>


subsection \<open>Reading one producer\<close>


subsection \<open>Running \<open>calculate()\<close>\<close>



subsection \<open>Recomputing\<close>




subsection \<open>The polling loop\<close>






subsection \<open>Polling a consumer\<close>






subsection \<open>Bringing a pipeline up to date\<close>




subsection \<open>Storing a new value in a leaf\<close>

lemma obs_store [simp]:
  "seen (store j x s) = seen s" "tracked (store j x s) = tracked s" "live (store j x s) = live s"
  "settled (store j x s) = settled s" "up_to_date (store j x s) = up_to_date s"
  "valueVersion_of (store j x s) q = (if q = V j then valueVersion_of s q + 1 else valueVersion_of s q)"
  "value_of (store j x s) q = (if q = V j then x else value_of s q)"
  "wf_maps (store j x s) = wf_maps s" "sized_maps (store j x s) = sized_maps s"
  "pipelines (store j x s) = pipelines s" "activeConsumer (store j x s) = activeConsumer s"
  "quiescent (store j x s) = quiescent s"
  by (auto simp: store_def tracked_upd_value live_def settled_def up_to_date_def valueVersion_of_def
      value_of_def wf_maps_def sized_maps_def quiescent_def fun_eq_iff split: producer.splits)



subsection \<open>Marking a consumer stale\<close>


lemma quiescent_upd [simp]:
  "quiescent (upd_pipeline c (\<lambda>p. p\<lparr>p_stale := x\<rparr>) s) = quiescent s"
  "quiescent (unlink r c q s) = quiescent s"
  by (auto simp: quiescent_def)



subsection \<open>Dropping a dead edge while notifying\<close>


lemma above_rank_refl [simp]: "above_rank rank r s s"
  by (simp add: above_rank_def)





subsection \<open>The notification cascade\<close>











subsection \<open>A clean pipeline holds what a fresh graph computes\<close>



subsection \<open>Reading at a quiescent point\<close>


subsection \<open>Writing at a quiescent point\<close>


subsection \<open>The graph as constructed\<close>

lemma lookup_new [simp]: "lookup edges_new k = None"
  by (simp add: lookup_def edges_new_def field_ref_def edges_get_def LinearMap_get_def
      LinearMap_new_def)

lemma initial_obs [simp]:
  "seen (initial_state leaf calc) c q = None" "tracked (initial_state leaf calc) q c = None"
  "\<not> live (initial_state leaf calc) c q" "\<not> settled (initial_state leaf calc) c"
  "leaf_values (initial_state leaf calc) = leaf"
  by (auto simp: seen_def tracked_def live_def settled_def leaf_values_def initial_state_def
      Pipeline_new_def ValuePipeline_new_def consumers_of_def split: producer.splits)


subsection \<open>Any sequence of reads and writes\<close>






subsection \<open>What stays in place while no leaf changes\<close>

lemma keeps_refl [simp]: "keeps X s s"
  by (simp add: keeps_def)

lemma keeps_frame: "keeps X s s' \<Longrightarrow> frame s s'"
  by (simp add: keeps_def)

lemma keeps_trans:
  assumes ab: "keeps X a b" and bc: "keeps X b c"
  shows "keeps X a c"
proof -
  have fab: "frame a b" and fbc: "frame b c" using ab bc by (simp_all add: keeps_def)
  have mid: "v_valueVersion (valuePipelines b j) = v_valueVersion (valuePipelines a j)
           \<and> v_valueVersion (valuePipelines c j) = v_valueVersion (valuePipelines b j)"
    if "v_valueVersion (valuePipelines c j) = v_valueVersion (valuePipelines a j)" for j
    using frameD(3)[OF fab, of j] frameD(3)[OF fbc, of j] that by simp
  show ?thesis
    unfolding keeps_def
  proof (intro conjI allI impI)
    show "frame a c" by (rule frame_trans[OF fab fbc])
    show "v_value (valuePipelines c j) = v_value (valuePipelines a j)"
      if "v_valueVersion (valuePipelines c j) = v_valueVersion (valuePipelines a j)" for j
      using mid[OF that] ab bc by (simp add: keeps_def)
    fix i
    assume all: "\<forall>j. v_valueVersion (valuePipelines c j) = v_valueVersion (valuePipelines a j)"
      and i: "Some i \<noteq> X" and cl: "p_stale (pipelines a i) = StaleFalse"
    from all mid have m1: "\<forall>j. v_valueVersion (valuePipelines b j) = v_valueVersion (valuePipelines a j)"
      and m2: "\<forall>j. v_valueVersion (valuePipelines c j) = v_valueVersion (valuePipelines b j)"
      by blast+
    from ab m1 i cl have b: "p_stale (pipelines b i) = StaleFalse"
      "p_value (pipelines b i) = p_value (pipelines a i)" by (simp_all add: keeps_def)
    from bc m2 i b(1) have "p_stale (pipelines c i) = StaleFalse"
      "p_value (pipelines c i) = p_value (pipelines b i)" by (simp_all add: keeps_def)
    with b show "p_stale (pipelines c i) = StaleFalse" "p_value (pipelines c i) = p_value (pipelines a i)"
      by simp_all
  qed
qed

lemma keeps_weaken: "keeps None s s' \<Longrightarrow> keeps X s s'"
  by (simp add: keeps_def)

lemma keeps_strengthen:
  "keeps (Some i) s s' \<Longrightarrow> p_stale (pipelines s i) \<noteq> StaleFalse \<Longrightarrow> keeps None s s'"
  unfolding keeps_def by (intro conjI allI impI) auto

lemma keeps_same:
  assumes "frame s s'"
    and "\<And>j. v_value (valuePipelines s' j) = v_value (valuePipelines s j)"
    and "\<And>i. Some i \<noteq> X \<Longrightarrow> p_stale (pipelines s i) = StaleFalse \<Longrightarrow>
           p_stale (pipelines s' i) = StaleFalse \<and> p_value (pipelines s' i) = p_value (pipelines s i)"
  shows "keeps X s s'"
  using assms by (simp add: keeps_def)

lemma keeps_upd_consumers [simp]: "keeps X s (upd_consumers q f s)"
  by (rule keeps_same[OF frame_upd_consumers])
     (auto simp: upd_consumers_def upd_value_def upd_pipeline_def split: producer.splits)

lemma keeps_upd_producers [simp]: "keeps X s (upd_producers i f s)"
  by (rule keeps_same[OF frame_upd_producers]) (auto simp: upd_producers_def upd_pipeline_def)

lemma keeps_producerAccessed [simp]: "keeps X s (producerAccessed q s)"
  by (rule keeps_same) simp_all

lemma keeps_step:
  "res_rel (keeps X) (keeps X) s1 r \<Longrightarrow> keeps X s s1 \<Longrightarrow> res_rel (keeps X) (keeps X) s r"
  by (rule res_rel_step[where Rok = "keeps X" and Rerr = "keeps X" and R = "keeps X",
        OF _ _ keeps_trans keeps_trans])

lemma keeps_recompute_step:
  assumes "res_rel (keeps (Some i)) (keeps (Some i)) s1 r" and "keeps None s s1"
    and "p_stale (pipelines s i) \<noteq> StaleFalse"
  shows "res_rel (keeps None) (keeps None) s r"
proof -
  have "keeps None s t" if "keeps (Some i) s1 t" for t
    by (rule keeps_strengthen[OF keeps_trans[OF keeps_weaken[OF assms(2)] that] assms(3)])
  with assms(1) show ?thesis by (cases r) auto
qed

lemma keeps_clean:
  assumes "keeps None s s1" and "p_stale (pipelines s i) \<noteq> StaleFalse"
    and "p_value (pipelines s i) \<noteq> COMPUTING"
  shows "keeps None s (upd_pipeline i (\<lambda>p. p\<lparr>p_stale := StaleFalse\<rparr>) s1)"
proof -
  have f: "frame s (upd_pipeline i (\<lambda>p. p\<lparr>p_stale := StaleFalse\<rparr>) s1)"
    by (rule frame_upd_pipeline[where f = "\<lambda>p. p\<lparr>p_stale := StaleFalse\<rparr>",
          OF keeps_frame[OF assms(1)] assms(3)]) simp_all
  show ?thesis
    unfolding keeps_def
    using f assms(1,2) by (auto simp: keeps_def upd_pipeline_def)
qed

lemma keeps_recompute_err:
  assumes "p_value (pipelines s i) \<noteq> COMPUTING" and "keeps None (recompute_begin i s) s5"
  shows "keeps (Some i) s (s5\<lparr>activeConsumer := activeConsumer s\<rparr>)"
proof -
  have f: "frame s (s5\<lparr>activeConsumer := activeConsumer s\<rparr>)"
    by (rule frame_recompute_err[OF assms(1) keeps_frame[OF assms(2)]])
  show ?thesis
    unfolding keeps_def
    using f assms(2) by (auto simp: keeps_def)
qed

lemma keeps_recompute_ok:
  assumes "p_value (pipelines s i) \<noteq> COMPUTING" and "keeps None (recompute_begin i s) s5"
  shows "keeps (Some i) s (recompute_finish i (p_value (pipelines s i)) x
                            (s5\<lparr>activeConsumer := activeConsumer s\<rparr>))"
proof -
  have f: "frame s (recompute_finish i (p_value (pipelines s i)) x
                            (s5\<lparr>activeConsumer := activeConsumer s\<rparr>))"
    by (rule frame_recompute_ok[OF assms(1) keeps_frame[OF assms(2)]])
  show ?thesis
    unfolding keeps_def
    using f assms(2) by (auto simp: keeps_def recompute_finish_def Let_def upd_pipeline_def)
qed

lemma keeps_store:
  assumes "res_all (notified (V j) (store j x s)) r" and "res_rel frame frame (store j x s) r"
  shows "res_rel (keeps None) (keeps None) s r"
proof -
  have "keeps None s t" if n: "notified (V j) (store j x s) t" and f: "frame (store j x s) t" for t
  proof -
    have v: "v_valueVersion (valuePipelines t j) = v_valueVersion (valuePipelines s j) + 1"
      using n by (simp add: notified_def store_def upd_value_def)
    have l: "v_value (valuePipelines t k) = v_value (valuePipelines s k)" if "k \<noteq> j" for k
      using n that by (simp add: notified_def store_def upd_value_def)
    have "frame s (store j x s)" by (auto simp: frame_def store_def upd_value_def)
    then have "frame s t" using f by (rule frame_trans)
    then show ?thesis
      unfolding keeps_def using v l by (intro conjI allI impI) (auto, metis Suc_n_not_n)
  qed
  with assms show ?thesis by (cases r) auto
qed

lemma keeps_engine:
  "(\<forall>i (s::'v state). res_rel (keeps None) (keeps None) s (checkForActuallyChangedValue n i s))
 \<and> (\<forall>i (s::'v state). res_rel (keeps (Some i)) (keeps (Some i)) s (recomputeValue n i s))
 \<and> (\<forall>q (s::'v state). res_rel (keeps None) (keeps None) s (get_value n q s))
 \<and> (\<forall>j x (s::'v state). res_rel (keeps None) (keeps None) s (setValue n j x s))
 \<and> (\<forall>i x (s::'v state). res_rel (keeps None) (keeps None) s (consumerPollValueStatus n i x s))
 \<and> (\<forall>i r it sk (s::'v state). res_rel (keeps None) (keeps None) s (pollLoop n i r it sk s))
 \<and> (\<forall>q x (s::'v state). res_rel (keeps None) (keeps None) s (producerPollStatus n q x s))
 \<and> (\<forall>c (s::'v state). res_rel (keeps None) (keeps None) s (run n c s))"
proof (induction n)
  case 0
  show ?case by simp
next
  case (Suc n)
  let ?K = "keeps None :: 'v state \<Rightarrow> 'v state \<Rightarrow> bool"
  from Suc.IH have check: "res_rel ?K ?K s (checkForActuallyChangedValue n i s)"
    for i and s :: "'v state" by simp
  from Suc.IH have rec: "res_rel (keeps (Some i)) (keeps (Some i)) s (recomputeValue n i s)"
    for i and s :: "'v state" by simp
  from Suc.IH have get: "res_rel ?K ?K s (get_value n q s)" for q and s :: "'v state" by simp
  from Suc.IH have set: "res_rel ?K ?K s (setValue n j x s)" for j x and s :: "'v state" by simp
  from Suc.IH have poll: "res_rel ?K ?K s (consumerPollValueStatus n i x s)"
    for i x and s :: "'v state" by simp
  from Suc.IH have loop: "res_rel ?K ?K s (pollLoop n i r it sk s)"
    for i r it sk and s :: "'v state" by simp
  from Suc.IH have pps: "res_rel ?K ?K s (producerPollStatus n q x s)"
    for q x and s :: "'v state" by simp
  from Suc.IH have run: "res_rel ?K ?K s (run n c s)" for c and s :: "'v state" by simp
  note step = keeps_step[where X = None]
  have c1: "res_rel ?K ?K s (checkForActuallyChangedValue_body (engine n) i s)"
    for i and s :: "'v state"
  proof -
    have "res_rel ?K ?K s (and_then (consumerPollValueStatus n i (p_stale (pipelines s i)) s)
             (\<lambda>depsChanged s1.
                if \<not> depsChanged
                then Ok () (upd_pipeline i (\<lambda>p. p\<lparr>p_stale := StaleFalse\<rparr>) s1)
                else recomputeValue n i s1))"
      if "p_stale (pipelines s i) \<noteq> StaleFalse" "p_value (pipelines s i) \<noteq> UNSET"
        "p_value (pipelines s i) \<noteq> COMPUTING"
      by (rule res_rel_seq[OF poll])
         (auto intro: keeps_clean[OF _ that(1,3)] keeps_recompute_step[OF rec _ that(1)])
    moreover have "res_rel ?K ?K s (recomputeValue n i s)"
      if "p_stale (pipelines s i) \<noteq> StaleFalse"
      by (rule keeps_recompute_step[OF rec keeps_refl that])
    ultimately show ?thesis
      unfolding checkForActuallyChangedValue_body_def by auto
  qed
  have c2: "res_rel (keeps (Some i)) (keeps (Some i)) s (recomputeValue_body (engine n) i s)"
    for i and s :: "'v state"
  proof (cases "p_value (pipelines s i) = COMPUTING")
    case True
    then show ?thesis by (simp add: recomputeValue_body_alt)
  next
    case False
    show ?thesis
      using run[of "recompute_begin i s" "p_calculate (pipelines s i)"] False
      by (cases "run n (p_calculate (pipelines s i)) (recompute_begin i s)")
         (auto simp: recomputeValue_body_alt and_then_def try_finally_def
            intro: keeps_recompute_err keeps_recompute_ok)
  qed
  have c3: "res_rel ?K ?K s (get_value_body (engine n) q s)" for q and s :: "'v state"
    unfolding get_value_body_def Let_def
    by (auto split: producer.splits intro!: res_rel_seq[OF check]
        intro: keeps_trans[OF _ keeps_producerAccessed])
  have c5: "res_rel ?K ?K s (setValue_body (engine n) j y s)" for j y and s :: "'v state"
  proof (cases "y = v_value (valuePipelines s j)")
    case True
    then show ?thesis by (simp add: setValue_body_def)
  next
    case False
    have "res_rel ?K ?K s (producerNotifyConsumers n (V j) (store j y s))"
      using notify_clique[of n] by (intro keeps_store[OF _ framed(6)]) blast
    with False show ?thesis by (simp add: setValue_body_def store_def Let_def)
  qed
  have c8: "res_rel ?K ?K s (consumerPollValueStatus_body (engine n) i st s)"
    for i st and s :: "'v state"
    unfolding consumerPollValueStatus_body_def Let_def
    by (auto split: stale.splits intro!: loop res_rel_seq[OF pps] step[OF loop])
  have c9: "res_rel ?K ?K s (pollLoop_body (engine n) i r it sk s)"
    for i r it sk and s :: "'v state"
  proof (cases "iter_next it (p_producers (pipelines s i))")
    case None
    then show ?thesis by (simp add: pollLoop_body_def)
  next
    case (Some a)
    obtain q vv it' where a: "a = ((q, vv), it')" by (metis prod.exhaust)
    have d: "?K s (upd_consumers q (\<lambda>e. edges_delete (field_ref e) e i)
                 (upd_producers i (\<lambda>e. edges_delete r e q) s))"
      by (rule keeps_trans[OF keeps_upd_producers keeps_upd_consumers])
    show ?thesis
      unfolding pollLoop_body_def Let_def Some a
      by (auto intro!: loop step[OF loop d] res_rel_seq[OF pps] step[OF loop])
  qed
  have c10: "res_rel ?K ?K s (producerPollStatus_body (engine n) q lv s)"
    for q lv and s :: "'v state"
    unfolding producerPollStatus_body_def Let_def
    by (auto split: producer.splits simp: and_then_def
          intro!: res_rel_seq[OF check, unfolded and_then_def])
  have c11: "res_rel ?K ?K s (run_body (engine n) c s)" for c and s :: "'v state"
  proof (cases c)
    case (Catch c1 h)
    show ?thesis
      unfolding run_body_def Catch prog.case
      by (rule res_rel_catch[OF run]) (rule step[OF run])
  qed (auto simp: run_body_def intro!: res_rel_seq[OF get] res_rel_seq[OF set] step[OF run])
  show ?case
    unfolding engine_Suc using c1 c2 c3 c5 c8 c9 c10 c11 by simp
qed

lemmas kept = keeps_engine[THEN conjunct1, rule_format]
  keeps_engine[THEN conjunct2, THEN conjunct1, rule_format]
  keeps_engine[THEN conjunct2, THEN conjunct2, THEN conjunct1, rule_format]
  keeps_engine[THEN conjunct2, THEN conjunct2, THEN conjunct2, THEN conjunct1, rule_format]
  keeps_engine[THEN conjunct2, THEN conjunct2, THEN conjunct2, THEN conjunct2, THEN conjunct2,
    THEN conjunct2, THEN conjunct2, rule_format]

lemma keeps_bump:
  assumes k: "keeps None s s1"
    and n: "res_all (notified (V j) (upd_value j (\<lambda>v. v\<lparr>v_valueVersion := v_valueVersion v + 1\<rparr>) s1)) r"
    and f: "res_rel frame frame (upd_value j (\<lambda>v. v\<lparr>v_valueVersion := v_valueVersion v + 1\<rparr>) s1) r"
  shows "res_rel (keeps None) (keeps None) s r"
proof -
  let ?s2 = "upd_value j (\<lambda>v. v\<lparr>v_valueVersion := v_valueVersion v + 1\<rparr>) s1"
  have "keeps None s t" if n: "notified (V j) ?s2 t" and f: "frame ?s2 t" for t
  proof -
    have v: "v_valueVersion (valuePipelines t j) = v_valueVersion (valuePipelines s1 j) + 1"
      using n by (simp add: notified_def upd_value_def)
    have l: "v_value (valuePipelines t k) = v_value (valuePipelines s1 k)
           \<and> v_valueVersion (valuePipelines t k) = v_valueVersion (valuePipelines s1 k)"
      if "k \<noteq> j" for k
      using n that by (simp add: notified_def upd_value_def)
    have "frame s1 ?s2" by (rule frame_upd_value_version)
    then have "frame s1 t" using f by (rule frame_trans)
    with keeps_frame[OF k] have ft: "frame s t" by (rule frame_trans)
    have lt: "v_valueVersion (valuePipelines s j) < v_valueVersion (valuePipelines t j)"
      using frameD(3)[OF keeps_frame[OF k], of j] v by simp
    show ?thesis
      unfolding keeps_def
    proof (intro conjI allI impI)
      show "frame s t" by (rule ft)
      show "v_value (valuePipelines t k) = v_value (valuePipelines s k)"
        if "v_valueVersion (valuePipelines t k) = v_valueVersion (valuePipelines s k)" for k
      proof -
        from that lt have kj: "k \<noteq> j" by auto
        with that l[OF kj] k show ?thesis by (simp add: keeps_def)
      qed
      fix i
      assume "\<forall>j. v_valueVersion (valuePipelines t j) = v_valueVersion (valuePipelines s j)"
      with lt have False by (metis less_irrefl)
      then show "p_stale (pipelines t i) = StaleFalse"
        "p_value (pipelines t i) = p_value (pipelines s i)" by simp_all
    qed
  qed
  with n f show ?thesis by (cases r) auto
qed

lemma updateValue_keeps: "res_rel (keeps None) (keeps None) s (updateValue n j updater s)"
  unfolding updateValue_def
  by (rule res_rel_seq[OF kept(5)]) (rule keeps_step[OF kept(4)])

lemma mutateValue_keeps: "res_rel (keeps None) (keeps None) s (mutateValue n j mutator s)"
  unfolding mutateValue_def Let_def
proof (rule res_rel_seq[OF kept(5)])
  fix x s1
  assume "keeps None s s1"
  then show "res_rel (keeps None) (keeps None) s
          (producerNotifyConsumers n (V j)
            (upd_value j (\<lambda>v. v\<lparr>v_valueVersion := v_valueVersion v + 1\<rparr>) s1))"
    using notify_clique[of n] by (intro keeps_bump[OF _ _ framed(6)]) blast+
qed

lemma keeps_reclaim: "keeps None s (upd_pipeline i (\<lambda>p. p\<lparr>p_reclaimed := True\<rparr>) s)"
  by (rule keeps_same[OF frame_reclaim]) (auto simp: upd_pipeline_def)

lemma perform_keeps: "res_rel (keeps None) (keeps None) s (perform n operation s)"
  unfolding perform_def
  by (cases operation)
     (simp_all add: res_rel_Ok_map kept updateValue_keeps mutateValue_keeps keeps_reclaim)

lemma perform_all_keeps: "perform_all n ops s = Some s' \<Longrightarrow> keeps None s s'"
proof (induction ops arbitrary: s)
  case Nil
  then show ?case by simp
next
  case (Cons operation ops)
  show ?case
  proof (cases "perform n operation s")
    case OutOfFuel
    with Cons.prems show ?thesis by simp
  next
    case (Err e s1)
    with perform_keeps[of s n operation] have "keeps None s s1" by simp
    moreover from Err Cons.prems have "keeps None s1 s'" by (auto intro: Cons.IH)
    ultimately show ?thesis by (rule keeps_trans)
  next
    case (Ok x s1)
    with perform_keeps[of s n operation] have "keeps None s s1" by simp
    moreover from Ok Cons.prems have "keeps None s1 s'" by (auto intro: Cons.IH)
    ultimately show ?thesis by (rule keeps_trans)
  qed
qed

subsection \<open>Reads change no leaf when no \<open>calculate()\<close> writes\<close>

lemma leaves_kept_refl [simp]: "leaves_kept s s"
  by (simp add: leaves_kept_def)

lemma read_only_frame: "frame s s' \<Longrightarrow> read_only s' = read_only s"
  by (simp add: read_only_def frame_def)

lemma leaves_kept_trans:
  assumes "leaves_kept a b" and "leaves_kept b c"
  shows "leaves_kept a c"
proof -
  from assms have f: "frame a b" "frame b c" by (simp_all add: leaves_kept_def)
  show ?thesis
    using assms frame_trans[OF f] read_only_frame[OF f(1)] by (auto simp: leaves_kept_def)
qed

lemma leaves_kept_same:
  "frame s s' \<Longrightarrow> valuePipelines s' = valuePipelines s \<Longrightarrow> leaves_kept s s'"
  by (simp add: leaves_kept_def)

lemma leaves_kept_step:
  "res_rel leaves_kept leaves_kept s1 r \<Longrightarrow> leaves_kept s s1 \<Longrightarrow> res_rel leaves_kept leaves_kept s r"
  by (rule res_rel_step[where Rok = leaves_kept and Rerr = leaves_kept and R = leaves_kept,
        OF _ _ leaves_kept_trans leaves_kept_trans])

lemma leaves_kept_frame: "frame s s' \<Longrightarrow> \<not> read_only s \<Longrightarrow> leaves_kept s s'"
  by (simp add: leaves_kept_def)

lemma res_rel_leaves_kept_frame:
  "res_rel frame frame s r \<Longrightarrow> \<not> read_only s \<Longrightarrow> res_rel leaves_kept leaves_kept s r"
  by (cases r) (simp_all add: leaves_kept_frame)

lemma leaves_kept_upd_consumers [simp]: "leaves_kept s (upd_consumers q f s)"
proof -
  have "v_value (valuePipelines (upd_consumers q f s) j) = v_value (valuePipelines s j)
      \<and> v_valueVersion (valuePipelines (upd_consumers q f s) j) = v_valueVersion (valuePipelines s j)"
    for j
    by (auto simp: upd_consumers_def upd_value_def upd_pipeline_def split: producer.splits)
  then show ?thesis by (simp add: leaves_kept_def)
qed

lemma leaves_kept_upd_producers [simp]: "leaves_kept s (upd_producers i f s)"
  by (rule leaves_kept_same[OF frame_upd_producers]) (auto simp: upd_producers_def upd_pipeline_def)

lemma leaves_kept_producerAccessed [simp]: "leaves_kept s (producerAccessed q s)"
  by (simp add: leaves_kept_def)

lemma leaves_kept_clean:
  assumes "leaves_kept s s1" and "p_value (pipelines s i) \<noteq> COMPUTING"
  shows "leaves_kept s (upd_pipeline i (\<lambda>p. p\<lparr>p_stale := StaleFalse\<rparr>) s1)"
proof -
  have f: "frame s (upd_pipeline i (\<lambda>p. p\<lparr>p_stale := StaleFalse\<rparr>) s1)"
    using assms(1)
    by (intro frame_upd_pipeline[where f = "\<lambda>p. p\<lparr>p_stale := StaleFalse\<rparr>", OF _ assms(2)])
       (simp_all add: leaves_kept_def)
  show ?thesis
    unfolding leaves_kept_def using f assms(1) by (auto simp: leaves_kept_def upd_pipeline_def)
qed

lemma read_only_begin [simp]: "read_only (recompute_begin i s) = read_only s"
proof -
  have "p_calculate (pipelines (recompute_begin i s) k) = p_calculate (pipelines s k)" for k
    by simp
  then show ?thesis unfolding read_only_def by simp
qed

lemma leaves_kept_recompute_err:
  assumes "p_value (pipelines s i) \<noteq> COMPUTING" and "leaves_kept (recompute_begin i s) s5"
  shows "leaves_kept s (s5\<lparr>activeConsumer := activeConsumer s\<rparr>)"
proof -
  have f: "frame s (s5\<lparr>activeConsumer := activeConsumer s\<rparr>)"
    using assms(2) by (intro frame_recompute_err[OF assms(1)]) (simp add: leaves_kept_def)
  show ?thesis
    unfolding leaves_kept_def using f assms(2) by (auto simp: leaves_kept_def)
qed

lemma leaves_kept_recompute_ok:
  assumes "p_value (pipelines s i) \<noteq> COMPUTING" and "leaves_kept (recompute_begin i s) s5"
  shows "leaves_kept s (recompute_finish i (p_value (pipelines s i)) x
                            (s5\<lparr>activeConsumer := activeConsumer s\<rparr>))"
proof -
  have f: "frame s (recompute_finish i (p_value (pipelines s i)) x
                            (s5\<lparr>activeConsumer := activeConsumer s\<rparr>))"
    using assms(2) by (intro frame_recompute_ok[OF assms(1)]) (simp add: leaves_kept_def)
  show ?thesis
    unfolding leaves_kept_def
    using f assms(2) by (auto simp: leaves_kept_def recompute_finish_def Let_def upd_pipeline_def)
qed

lemma leaves_kept_engine:
  "(\<forall>i (s::'v state). res_rel leaves_kept leaves_kept s (checkForActuallyChangedValue n i s))
 \<and> (\<forall>i (s::'v state). res_rel leaves_kept leaves_kept s (recomputeValue n i s))
 \<and> (\<forall>q (s::'v state). res_rel leaves_kept leaves_kept s (get_value n q s))
 \<and> (\<forall>i x (s::'v state). res_rel leaves_kept leaves_kept s (consumerPollValueStatus n i x s))
 \<and> (\<forall>i r it sk (s::'v state). res_rel leaves_kept leaves_kept s (pollLoop n i r it sk s))
 \<and> (\<forall>q x (s::'v state). res_rel leaves_kept leaves_kept s (producerPollStatus n q x s))
 \<and> (\<forall>c (s::'v state). no_write c \<longrightarrow> res_rel leaves_kept leaves_kept s (run n c s))"
proof (induction n)
  case 0
  show ?case by simp
next
  case (Suc n)
  let ?K = "leaves_kept :: 'v state \<Rightarrow> 'v state \<Rightarrow> bool"
  from Suc.IH have check: "res_rel ?K ?K s (checkForActuallyChangedValue n i s)"
    for i and s :: "'v state" by simp
  from Suc.IH have rec: "res_rel ?K ?K s (recomputeValue n i s)"
    for i and s :: "'v state" by simp
  from Suc.IH have get: "res_rel ?K ?K s (get_value n q s)" for q and s :: "'v state" by simp
  from Suc.IH have poll: "res_rel ?K ?K s (consumerPollValueStatus n i x s)"
    for i x and s :: "'v state" by simp
  from Suc.IH have loop: "res_rel ?K ?K s (pollLoop n i r it sk s)"
    for i r it sk and s :: "'v state" by simp
  from Suc.IH have pps: "res_rel ?K ?K s (producerPollStatus n q x s)"
    for q x and s :: "'v state" by simp
  from Suc.IH have run: "no_write c \<Longrightarrow> res_rel ?K ?K s (run n c s)"
    for c and s :: "'v state" by simp
  note step = leaves_kept_step
  have c1: "res_rel ?K ?K s (checkForActuallyChangedValue_body (engine n) i s)"
    for i and s :: "'v state"
  proof -
    have "res_rel ?K ?K s (and_then (consumerPollValueStatus n i (p_stale (pipelines s i)) s)
             (\<lambda>depsChanged s1.
                if \<not> depsChanged
                then Ok () (upd_pipeline i (\<lambda>p. p\<lparr>p_stale := StaleFalse\<rparr>) s1)
                else recomputeValue n i s1))"
      if "p_value (pipelines s i) \<noteq> COMPUTING"
      by (rule res_rel_seq[OF poll]) (auto intro: leaves_kept_clean[OF _ that] step[OF rec])
    then show ?thesis
      unfolding checkForActuallyChangedValue_body_def using rec by auto
  qed
  have c2: "res_rel ?K ?K s (recomputeValue_body (engine n) i s)"
    for i and s :: "'v state"
  proof (cases "p_value (pipelines s i) = COMPUTING")
    case True
    then show ?thesis by (simp add: recomputeValue_body_alt)
  next
    case False
    show ?thesis
    proof (cases "read_only s")
      case True
      then have "no_write (p_calculate (pipelines s i))" by (simp add: read_only_def)
      from run[OF this, of "recompute_begin i s"] False show ?thesis
        by (cases "run n (p_calculate (pipelines s i)) (recompute_begin i s)")
           (auto simp: recomputeValue_body_alt and_then_def try_finally_def
              intro: leaves_kept_recompute_err leaves_kept_recompute_ok)
    next
      case False
      have "res_rel frame frame s (recomputeValue (Suc n) i s)" by (rule framed(2))
      then show ?thesis
        using res_rel_leaves_kept_frame[OF _ False] by simp
    qed
  qed
  have c3: "res_rel ?K ?K s (get_value_body (engine n) q s)" for q and s :: "'v state"
    unfolding get_value_body_def Let_def
    by (auto split: producer.splits intro!: res_rel_seq[OF check]
        intro: leaves_kept_trans[OF _ leaves_kept_producerAccessed])
  have c8: "res_rel ?K ?K s (consumerPollValueStatus_body (engine n) i st s)"
    for i st and s :: "'v state"
    unfolding consumerPollValueStatus_body_def Let_def
    by (auto split: stale.splits intro!: loop res_rel_seq[OF pps] step[OF loop])
  have c9: "res_rel ?K ?K s (pollLoop_body (engine n) i r it sk s)"
    for i r it sk and s :: "'v state"
  proof (cases "iter_next it (p_producers (pipelines s i))")
    case None
    then show ?thesis by (simp add: pollLoop_body_def)
  next
    case (Some a)
    obtain q vv it' where a: "a = ((q, vv), it')" by (metis prod.exhaust)
    have d: "?K s (upd_consumers q (\<lambda>e. edges_delete (field_ref e) e i)
                 (upd_producers i (\<lambda>e. edges_delete r e q) s))"
      by (rule leaves_kept_trans[OF leaves_kept_upd_producers leaves_kept_upd_consumers])
    show ?thesis
      unfolding pollLoop_body_def Let_def Some a
      by (auto intro!: loop step[OF loop d] res_rel_seq[OF pps] step[OF loop])
  qed
  have c10: "res_rel ?K ?K s (producerPollStatus_body (engine n) q lv s)"
    for q lv and s :: "'v state"
    unfolding producerPollStatus_body_def Let_def
    by (auto split: producer.splits simp: and_then_def
          intro!: res_rel_seq[OF check, unfolded and_then_def])
  have c11: "res_rel ?K ?K s (run_body (engine n) c s)" if "no_write c" for c and s :: "'v state"
  proof (cases c)
    case (Catch c1 h)
    with that have nw: "no_write c1" "\<And>e. no_write (h e)" by simp_all
    show ?thesis
      unfolding run_body_def Catch prog.case
      by (rule res_rel_catch[OF run[OF nw(1)]]) (rule step[OF run[OF nw(2)]])
  next
    case (Read q k)
    with that have nw: "\<And>x. no_write (k x)" by simp
    show ?thesis
      unfolding run_body_def Read prog.case
      by (rule res_rel_seq[OF get]) (rule step[OF run[OF nw]])
  qed (use that in \<open>auto simp: run_body_def\<close>)
  show ?case
    unfolding engine_Suc using c1 c2 c3 c8 c9 c10 c11 by simp
qed

lemmas leaves_are_kept = leaves_kept_engine[THEN conjunct2, THEN conjunct2, THEN conjunct1, rule_format]

lemma idle_cong:
  assumes "\<And>j. v_value (valuePipelines s' j) = v_value (valuePipelines s j)"
  shows "idle s' operation = idle s operation"
  using assms by (cases operation) simp_all

lemma perform_idle:
  assumes "read_only s" and "idle s operation"
  shows "res_rel leaves_kept leaves_kept s (perform n operation s)"
proof (cases operation)
  case (GetValue q)
  then show ?thesis by (simp add: perform_def res_rel_Ok_map leaves_are_kept)
next
  case (SetValue j x)
  with assms(2) show ?thesis
    by (cases n) (simp_all add: perform_def setValue_body_def and_then_def)
next
  case (Reclaim i)
  have "leaves_kept s (upd_pipeline i (\<lambda>p. p\<lparr>p_reclaimed := True\<rparr>) s)"
    by (rule leaves_kept_same[OF frame_reclaim]) (simp add: upd_pipeline_def)
  then show ?thesis by (simp add: perform_def Reclaim)
qed (use assms(2) in simp_all)

lemma idle_operations_keep_leaves:
  assumes "read_only s" and "list_all (idle s) ops" and "perform_all n ops s = Some s'"
  shows "\<forall>j. v_value (valuePipelines s' j) = v_value (valuePipelines s j)
           \<and> v_valueVersion (valuePipelines s' j) = v_valueVersion (valuePipelines s j)"
  using assms
proof (induction ops arbitrary: s)
  case Nil
  then show ?case by simp
next
  case (Cons operation ops)
  from Cons.prems(2) have i: "idle s operation" and r: "list_all (idle s) ops" by simp_all
  have step: ?case if k: "leaves_kept s s1" and p: "perform_all n ops s1 = Some s'" for s1
  proof -
    from k Cons.prems(1) have l: "\<And>j. v_value (valuePipelines s1 j) = v_value (valuePipelines s j)"
      "\<And>j. v_valueVersion (valuePipelines s1 j) = v_valueVersion (valuePipelines s j)"
      and f: "frame s s1"
      by (simp_all add: leaves_kept_def)
    have "read_only s1" using read_only_frame[OF f] Cons.prems(1) by simp
    moreover have "list_all (idle s1) ops"
      using r idle_cong[of s1 s, OF l(1)] by (simp add: list_all_iff)
    ultimately show ?thesis using Cons.IH[OF _ _ p] l by simp
  qed
  show ?case
  proof (cases "perform n operation s")
    case OutOfFuel
    with Cons.prems(3) show ?thesis by simp
  next
    case (Err e s1)
    with perform_idle[OF Cons.prems(1) i, of n] Cons.prems(3) show ?thesis
      by (intro step[of s1]) simp_all
  next
    case (Ok x s1)
    with perform_idle[OF Cons.prems(1) i, of n] Cons.prems(3) show ?thesis
      by (intro step[of s1]) simp_all
  qed
qed
lemma sum_graph_read_both_eval:
  "perform_all 8 [GetValue (P 1), SetValue 0 (Val 0)] sum_graph_read = Some sum_graph_read_both"
proof -
  have "perform_all 8 [GetValue (P 1), SetValue 0 (Val 0)] sum_graph_read \<noteq> None"
    unfolding sum_graph_read_def
    by (simp add: numeral_eq_Suc body_defs eval_defs sum_graph_def perform_def Let_def)
  then show ?thesis
    unfolding sum_graph_read_both_def by (auto split: option.splits)
qed

lemma sum_graph_read_only: "read_only sum_graph_read"
proof -
  have "p_calculate (pipelines sum_graph_read i) = MiddlePipe [V 0, V 1]" for i
    using framed(3)[of sum_graph 8 "P 0"] sum_graph_read_eval
    by (simp add: frame_def sum_graph_def initial_state_def Pipeline_new_def)
  then show ?thesis
    by (auto simp: read_only_def MiddlePipe_def split: jsval.splits)
qed

subsection \<open>A read that comes back to a pipeline being computed\<close>

lemma void_Err [simp]: "and_then r (\<lambda>x. Ok ()) = Err e s \<longleftrightarrow> r = Err e s"
  by (cases r) (simp_all add: and_then_def)


subsection \<open>A cycle of pipelines\<close>

lemma same_nodes_refl [simp]: "same_nodes s s"
  by (simp add: same_nodes_def)

lemma same_nodes_trans: "same_nodes a b \<Longrightarrow> same_nodes b c \<Longrightarrow> same_nodes a c"
  by (simp add: same_nodes_def)

lemma same_nodes_producerAccessed [simp]: "same_nodes s (producerAccessed q s)"
  by (simp add: same_nodes_def)

lemma same_nodes_obs:
  assumes "same_nodes s s'"
  shows "up_to_date s' = up_to_date s" "value_of s' = value_of s" "fresh s' = fresh s"
  using assms
  by (auto simp: same_nodes_def up_to_date_def value_of_def fresh_def fun_eq_iff split: producer.splits)

lemma leads_to_cong:
  assumes "up_to_date s' = up_to_date s" and "\<And>q. up_to_date s q \<Longrightarrow> value_of s' q = value_of s q"
  shows "leads_to s' c t = leads_to s c t"
  using assms by (induction c) auto

lemma cycle_chain_cong:
  assumes "same_nodes s s'"
  shows "cycle_chain s' xs t = cycle_chain s xs t"
proof (induction xs)
  case Nil
  show ?case by simp
next
  case (Cons x xs)
  have "leads_to s' c n = leads_to s c n" for c n
    by (rule leads_to_cong) (simp_all add: same_nodes_obs[OF assms])
  with Cons assms show ?case by (simp add: same_nodes_obs[OF assms]) (simp add: same_nodes_def)
qed

lemma get_value_up_to_date:
  assumes "up_to_date s q"
  shows "get_value (Suc (Suc n)) q s = Ok (value_of s q) (producerAccessed q s)"
  using assms
  by (cases q)
     (simp_all add: get_value_body_def checkForActuallyChangedValue_body_def and_then_def Let_def
        up_to_date_def value_of_def)

lemma cycle_chain_begin:
  assumes "fresh s x" and "x \<notin> set xs"
  shows "cycle_chain (recompute_begin x s) xs t = cycle_chain s xs t"
  using assms(2)
proof (induction xs)
  case Nil
  show ?case by simp
next
  case (Cons y ys)
  from assms(1) have u: "p_stale (pipelines s x) \<noteq> StaleFalse" by (simp add: fresh_def)
  have "leads_to (recompute_begin x s) c n = leads_to s c n" for c n
    using u by (intro leads_to_cong) (auto simp: up_to_date_def value_of_def fun_eq_iff split: producer.splits)
  with Cons show ?case by (auto simp: fresh_def)
qed

lemma leads_to_arrives:
  assumes H: "\<And>s'. same_nodes s0 s' \<Longrightarrow> arrives u s' (Get_value (P t))"
  shows "leads_to s c t \<Longrightarrow> same_nodes s0 s \<Longrightarrow> arrives u s (Run c)"
proof (induction c arbitrary: s)
  case (Read q k)
  show ?case
  proof (cases "q = P t")
    case True
    from H[OF Read.prems(2)] show ?thesis unfolding True by (rule arrives.read)
  next
    case False
    with Read.prems(1) have u: "up_to_date s q" and l: "leads_to s (k (value_of s q)) t" by auto
    let ?s1 = "producerAccessed q s"
    have sn: "same_nodes s ?s1" by simp
    have "leads_to ?s1 (k (value_of s q)) t = leads_to s (k (value_of s q)) t"
      by (rule leads_to_cong) (simp_all add: same_nodes_obs[OF sn])
    with l have l1: "leads_to ?s1 (k (value_of s q)) t" by simp
    have g: "get_value (Suc (Suc 0)) q s = Ok (value_of s q) ?s1" by (rule get_value_up_to_date[OF u])
    from g Read.IH[OF rangeI l1 same_nodes_trans[OF Read.prems(2) sn]]
    show ?thesis by (rule arrives.read_next)
  qed
qed simp_all

lemma fresh_arrives:
  assumes x: "fresh s x" and l: "leads_to s (p_calculate (pipelines s x)) t"
    and H: "\<And>s'. same_nodes (recompute_begin x s) s' \<Longrightarrow> arrives u s' (Get_value (P t))"
  shows "arrives u s (Get_value (P x))"
proof -
  let ?b = "recompute_begin x s"
  from x have v: "p_value (pipelines s x) = UNSET" "p_stale (pipelines s x) \<noteq> StaleFalse"
    by (simp_all add: fresh_def)
  have "leads_to ?b (p_calculate (pipelines s x)) t = leads_to s (p_calculate (pipelines s x)) t"
    using v by (intro leads_to_cong) (auto simp: up_to_date_def value_of_def fun_eq_iff split: producer.splits)
  with l have "leads_to ?b (p_calculate (pipelines s x)) t" by simp
  from leads_to_arrives[OF H this same_nodes_refl]
  have "arrives u ?b (Run (p_calculate (pipelines s x)))" .
  then have "arrives u s (RecomputeValue x)" using v(1) by (intro arrives.calculate) simp_all
  then have "arrives u s (CheckForActuallyChangedValue x)"
    using v by (intro arrives.check_first) simp_all
  then show ?thesis by (rule arrives.get_value)
qed

lemma chain_arrives:
  "distinct xs \<Longrightarrow> t \<notin> set xs \<Longrightarrow> cycle_chain s xs t \<Longrightarrow> p_value (pipelines s t) = COMPUTING
     \<Longrightarrow> p_stale (pipelines s t) \<noteq> StaleFalse
     \<Longrightarrow> arrives t s (Get_value (P (hd (xs @ [t]))))"
proof (induction xs arbitrary: s)
  case Nil
  from Nil(4) have "arrives t s (RecomputeValue t)" by (rule arrives.computing)
  then have "arrives t s (CheckForActuallyChangedValue t)"
    using Nil(4,5) by (intro arrives.check_first) simp_all
  then show ?case by (simp add: arrives.get_value)
next
  case (Cons x xs)
  let ?b = "recompute_begin x s"
  let ?nxt = "hd (xs @ [t])"
  from Cons.prems have x: "fresh s x" "leads_to s (p_calculate (pipelines s x)) ?nxt"
    and ch: "cycle_chain s xs t" and d: "distinct xs" "t \<notin> set xs" "x \<notin> set xs" "t \<noteq> x"
    by auto
  have "arrives t s' (Get_value (P ?nxt))" if sn: "same_nodes ?b s'" for s'
  proof (rule Cons.IH[OF d(1,2)])
    from ch show "cycle_chain s' xs t"
      by (simp add: cycle_chain_cong[OF sn] cycle_chain_begin[OF x(1) d(3)])
    from sn Cons.prems(4,5) d(4) show "p_value (pipelines s' t) = COMPUTING"
      "p_stale (pipelines s' t) \<noteq> StaleFalse" by (simp_all add: same_nodes_def)
  qed
  from fresh_arrives[OF x this] show ?case by simp
qed

lemma cycle_arrives:
  assumes "distinct (x # xs)" and "cycle_chain s (x # xs) x"
  shows "arrives x s (Get_value (P x))"
proof -
  let ?b = "recompute_begin x s"
  let ?nxt = "hd (xs @ [x])"
  from assms have x: "fresh s x" "leads_to s (p_calculate (pipelines s x)) ?nxt"
    and ch: "cycle_chain s xs x" and d: "distinct xs" "x \<notin> set xs"
    by auto
  have "arrives x s' (Get_value (P ?nxt))" if sn: "same_nodes ?b s'" for s'
  proof (rule chain_arrives[OF d])
    from ch show "cycle_chain s' xs x"
      by (simp add: cycle_chain_cong[OF sn] cycle_chain_begin[OF x(1) d(2)])
    from sn x(1) show "p_value (pipelines s' x) = COMPUTING"
      "p_stale (pipelines s' x) \<noteq> StaleFalse" by (simp_all add: same_nodes_def fresh_def)
  qed
  from fresh_arrives[OF x this] show ?thesis .
qed


lemma side_graph_reading_eval:
  "get_value 8 (P 2) (recompute_begin 0 side_graph) = Ok (Val 0) side_graph_reading"
  unfolding side_graph_reading_def
  by (simp add: numeral_eq_Suc body_defs eval_defs side_graph_def Let_def recompute_begin_def upd_defs)

lemma side_graph_reading_fields:
  "p_value (pipelines side_graph_reading 0) = COMPUTING"
  "p_stale (pipelines side_graph_reading 0) = StaleTrue"
  "p_value (pipelines side_graph_reading (Suc 0)) = UNSET"
  "p_stale (pipelines side_graph_reading (Suc 0)) = StaleTrue"
  "p_calculate (pipelines side_graph_reading (Suc 0)) = Read (P 0) Return"
  unfolding side_graph_reading_def
  by (simp_all add: numeral_eq_Suc body_defs eval_defs side_graph_def Let_def recompute_begin_def upd_defs)

lemma side_graph_arrives: "arrives 0 side_graph (Get_value (P 0))"
proof -
  let ?s1 = "side_graph_reading"
  let ?b = "recompute_begin (Suc 0) ?s1"
  note F = side_graph_reading_fields
  have "arrives 0 ?b (RecomputeValue 0)" by (rule arrives.computing) (simp add: F)
  then have "arrives 0 ?b (CheckForActuallyChangedValue 0)"
    by (rule arrives.check_first[rotated 2]) (simp_all add: F)
  then have "arrives 0 ?b (Get_value (P 0))" by (rule arrives.get_value)
  then have "arrives 0 ?b (Run (p_calculate (pipelines ?s1 (Suc 0))))"
    unfolding F by (rule arrives.read)
  then have "arrives 0 ?s1 (RecomputeValue (Suc 0))"
    by (rule arrives.calculate[rotated]) (simp add: F)
  then have "arrives 0 ?s1 (CheckForActuallyChangedValue (Suc 0))"
    by (rule arrives.check_first[rotated 2]) (simp_all add: F)
  then have "arrives 0 ?s1 (Get_value (P 1))" by (simp add: arrives.get_value)
  then have r: "arrives 0 ?s1 (Run (MiddlePipe_sum [P 1] 0))"
    by (simp add: arrives.read)
  have "arrives 0 (recompute_begin 0 side_graph) (Run (MiddlePipe [P 2, P 1]))"
    unfolding MiddlePipe_def MiddlePipe_sum.simps
    by (rule arrives.read_next[OF side_graph_reading_eval]) (use r in simp)
  then have "arrives 0 (recompute_begin 0 side_graph) (Run (p_calculate (pipelines side_graph 0)))"
    by (simp add: side_graph_def initial_state_def Pipeline_new_def)
  then have "arrives 0 side_graph (RecomputeValue 0)"
    by (rule arrives.calculate[rotated]) (simp add: side_graph_def initial_state_def Pipeline_new_def)
  then have "arrives 0 side_graph (CheckForActuallyChangedValue 0)"
    by (rule arrives.check_first[rotated 2])
       (simp_all add: side_graph_def initial_state_def Pipeline_new_def)
  then show ?thesis by (rule arrives.get_value)
qed

lemma mutual_graph_arrives: "arrives 0 mutual_graph (Get_value (P 0))"
proof (rule cycle_arrives[where xs = "[1]"])
  show "distinct [0::nat, 1]" by simp
  show "cycle_chain mutual_graph [0, 1] 0"
    by (simp add: mutual_graph_def initial_state_def Pipeline_new_def fresh_def)
qed

text \<open>
  No rule of \<open>arrives\<close> goes from \<open>checkForActuallyChangedValue\<close> to \<open>recomputeValue\<close> for a
  pipeline whose \<open>stale\<close> is \<open>false\<close>, and none is missing: such a pipeline is read without
  an error even while it is being computed, and the getter gives the symbol \<open>COMPUTING\<close>.
  In \<open>reentrant_self_graph_set\<close>, the read of \<open>i\<close> polls \<open>p\<close>, which sets \<open>g\<close> and reads \<open>i\<close>;
  that read recomputes \<open>i\<close>, which sets \<open>h\<close> (the notification finds \<open>i\<close> stale and returns)
  and is left clean; back from the polling, \<open>i\<close> is recomputed once more, reads \<open>h\<close> and
  then its own value.
\<close>

lemma self_read_after_reentry:
  "returned (get_value 30 (P 0) reentrant_self_graph_set) = Some COMPUTING
   \<and> thrown (get_value 30 (P 0) reentrant_self_graph_set) = None"
  unfolding reentrant_self_graph_set_def
  by (simp add: numeral_eq_Suc body_defs eval_defs reentrant_self_graph_def perform_def Let_def)

subsection \<open>A notification delivered during \<open>calculate()\<close>\<close>

text \<open>
  \<open>recomputeValue\<close> is called by \<open>checkForActuallyChangedValue\<close> only, which has found \<open>stale\<close>
  not to be \<open>false\<close>, and every call made while \<open>calculate()\<close> runs leaves a state \<open>s'\<close> with
  \<open>frame (recompute_begin i s) s'\<close>. When \<open>stale\<close> is still not \<open>false\<close> as \<open>recomputeValue\<close>
  begins, \<open>notify\<close> returns at once in every such state.
\<close>

lemma notify_during_calculate:
  assumes "p_stale (pipelines s i) \<noteq> StaleFalse" and "frame (recompute_begin i s) s'"
  shows "notify (Suc n) i x s' = Ok () s'"
proof -
  have "p_value (pipelines (recompute_begin i s) i) = COMPUTING" by simp
  from frame_computingD(2)[OF assms(2) this] assms(1)
  have "p_stale (pipelines s' i) \<noteq> StaleFalse" by simp
  then show ?thesis by (simp add: notify_body_def)
qed

text \<open>
  Between the test of \<open>stale\<close> and the call of \<open>recomputeValue\<close>,
  \<open>checkForActuallyChangedValue\<close> polls the producers, and a producer that is recomputed
  then may read the pipeline itself, which recomputes it and clears its \<open>stale\<close>. Only
  then is \<open>recomputeValue\<close> called with \<open>stale\<close> being \<open>false\<close>, and only then does a
  \<open>notify\<close> made during \<open>calculate()\<close> throw: in \<open>reentrant_graph_set\<close>, the read of \<open>i\<close>
  polls \<open>p\<close>, which sets \<open>g\<close> and reads \<open>i\<close>; back from the polling, \<open>i\<close> is recomputed once
  more, now clean, and its \<open>h.setValue\<close> notifies it.
\<close>

lemma notify_after_reentry:
  "thrown (get_value 30 (P 0) reentrant_graph_set) = Some ChangedWhileCalculating"
  unfolding reentrant_graph_set_def
  by (simp add: numeral_eq_Suc body_defs eval_defs reentrant_graph_def perform_def Let_def)

section \<open>The claims\<close>

text \<open>
  C9. \<open>recomputeValue\<close> leaves \<open>activeConsumer\<close> as it found it, whether it returns or throws
  (also when \<open>calculate()\<close> throws); when it does call \<open>calculate()\<close>, it does so with the
  pipeline itself as \<open>activeConsumer\<close> and puts the previous one back afterwards. So if
  \<open>activeConsumer\<close> is undefined before a sequence of top-level operations, it is
  undefined after it.
\<close>

theorem activeConsumer_restored:
  "res_all (\<lambda>s'. activeConsumer s' = activeConsumer s) (recomputeValue n i s)
   \<and> (p_value (pipelines s i) \<noteq> COMPUTING \<longrightarrow>
        activeConsumer (recompute_begin i s) = Some i
        \<and> recomputeValue (Suc n) i s =
            and_then
              (try_finally (run n (p_calculate (pipelines s i)) (recompute_begin i s))
                 (\<lambda>s5. s5\<lparr>activeConsumer := activeConsumer s\<rparr>))
              (\<lambda>newValue s6. Ok () (recompute_finish i (p_value (pipelines s i)) newValue s6)))
   \<and> (activeConsumer s = None \<longrightarrow>
        (case perform_all n ops s of None \<Rightarrow> True | Some s' \<Rightarrow> activeConsumer s' = None))"
proof (intro conjI impI)
  show "res_all (\<lambda>s'. activeConsumer s' = activeConsumer s) (recomputeValue n i s)"
    by (rule res_rel_res_all[OF framed(2)]) (simp_all add: frame_def)
next
  assume "p_value (pipelines s i) \<noteq> COMPUTING"
  then show "recomputeValue (Suc n) i s =
            and_then
              (try_finally (run n (p_calculate (pipelines s i)) (recompute_begin i s))
                 (\<lambda>s5. s5\<lparr>activeConsumer := activeConsumer s\<rparr>))
              (\<lambda>newValue s6. Ok () (recompute_finish i (p_value (pipelines s i)) newValue s6))"
    by (simp add: recomputeValue_body_alt)
next
  assume "activeConsumer s = None"
  then show "case perform_all n ops s of None \<Rightarrow> True | Some s' \<Rightarrow> activeConsumer s' = None"
    using frameD(1)[OF perform_all_frame, of n ops s]
    by (auto split: option.splits)
qed simp

theorem activeConsumer_restored_witness:
  "p_value (pipelines throwing_graph 0) \<noteq> COMPUTING
   \<and> activeConsumer throwing_graph = None
   \<and> thrown (recomputeValue 2 0 throwing_graph) = Some Thrown
   \<and> map_option activeConsumer (final (recomputeValue 2 0 throwing_graph)) = Some None
   \<and> map_option activeConsumer (perform_all 4 [GetValue (P 0), GetValue (V 0)] throwing_graph)
       = Some None"
  using activeConsumer_restored[of throwing_graph 2 0 "[GetValue (P 0), GetValue (V 0)]"]
  by (simp add: numeral_eq_Suc body_defs eval_defs throwing_graph_def Let_def)

text \<open>
  C5. \<open>setValue(x)\<close> with \<open>x\<close> identical to the current value returns at once and leaves
  the whole state as it is. Otherwise it stores \<open>x\<close>, increments \<open>valueVersion\<close> and calls
  \<open>producerNotifyConsumers\<close>; when that returns, the node holds \<open>x\<close> at the incremented
  version and every consumer with a live entry in its \<open>consumers\<close> map is stale.
\<close>

theorem setValue_effect:
  "(x = v_value (valuePipelines s j) \<longrightarrow> setValue (Suc n) j x s = Ok () s)
   \<and> (x \<noteq> v_value (valuePipelines s j) \<longrightarrow>
        setValue (Suc n) j x s =
          producerNotifyConsumers n (V j)
            (upd_value j (\<lambda>v. v\<lparr>v_valueVersion := v_valueVersion v + 1\<rparr>)
               (upd_value j (\<lambda>v. v\<lparr>v_value := x\<rparr>) s))
        \<and> (\<forall>s'. setValue (Suc n) j x s = Ok () s' \<longrightarrow>
              v_value (valuePipelines s' j) = x
            \<and> v_valueVersion (valuePipelines s' j) = v_valueVersion (valuePipelines s j) + 1
            \<and> (\<forall>e\<in>set (entries (v_consumers (valuePipelines s j))).
                  live_edge s e \<longrightarrow> p_stale (pipelines s' (fst e)) \<noteq> StaleFalse)))"
proof (intro conjI impI allI ballI)
  assume "x = v_value (valuePipelines s j)"
  then show "setValue (Suc n) j x s = Ok () s" by (simp add: setValue_body_def)
next
  let ?s2 = "upd_value j (\<lambda>v. v\<lparr>v_valueVersion := v_valueVersion v + 1\<rparr>)
               (upd_value j (\<lambda>v. v\<lparr>v_value := x\<rparr>) s)"
  assume ne: "x \<noteq> v_value (valuePipelines s j)"
  then show eq: "setValue (Suc n) j x s = producerNotifyConsumers n (V j) ?s2"
    by (simp add: setValue_body_def Let_def)
  fix s' assume "setValue (Suc n) j x s = Ok () s'"
  with eq have run: "producerNotifyConsumers n (V j) ?s2 = Ok () s'" by simp
  note rel = producerNotifyConsumers_notified[OF run]
  from rel show "v_value (valuePipelines s' j) = x"
    "v_valueVersion (valuePipelines s' j) = v_valueVersion (valuePipelines s j) + 1"
    by (simp_all add: notified_def)
  fix e assume "e \<in> set (entries (v_consumers (valuePipelines s j)))" "live_edge s e"
  then have "e \<in> set (entries (v_consumers (valuePipelines ?s2 j)))" "live_edge ?s2 e"
    by (simp_all add: live_edge_def)
  then show "p_stale (pipelines s' (fst e)) \<noteq> StaleFalse"
    by (rule producerNotifyConsumers_marks[OF run])
qed

theorem setValue_effect_witness:
  "setValue 8 0 (Val 0) sum_graph_read = Ok () sum_graph_read
   \<and> Val 1 \<noteq> v_value (valuePipelines sum_graph_read 0)
   \<and> (0, 2) \<in> set (entries (v_consumers (valuePipelines sum_graph_read 0)))
   \<and> live_edge sum_graph_read (0, 2)
   \<and> map_option (\<lambda>s'. v_value (valuePipelines s' 0)) (final (setValue 8 0 (Val 1) sum_graph_read))
       = Some (Val 1)
   \<and> map_option (\<lambda>s'. v_valueVersion (valuePipelines s' 0))
        (final (setValue 8 0 (Val 1) sum_graph_read)) = Some 2
   \<and> map_option (\<lambda>s'. p_stale (pipelines s' 0) \<noteq> StaleFalse)
        (final (setValue 8 0 (Val 1) sum_graph_read)) = Some True"
proof -
  note thm0 = setValue_effect[of "Val 0" sum_graph_read 0 7]
  note thm1 = setValue_effect[of "Val 1" sum_graph_read 0 7]
  have n8: "(8::nat) = Suc 7" by simp
  have same: "setValue 8 0 (Val 0) sum_graph_read = Ok () sum_graph_read"
    unfolding n8 using thm0 by (simp add: sum_graph_read_fields)
  have ne: "Val 1 \<noteq> v_value (valuePipelines sum_graph_read 0)"
    by (simp add: sum_graph_read_fields)
  have mem: "(0, 2) \<in> set (entries (v_consumers (valuePipelines sum_graph_read 0)))"
    by (simp add: sum_graph_read_fields entries_def)
  have live: "live_edge sum_graph_read (0, 2)"
    by (simp add: sum_graph_read_fields live_edge_def)
  have "returned (setValue 8 0 (Val 1) sum_graph_read) = Some ()"
    by (simp add: numeral_eq_Suc body_defs sum_graph_read_fields upd_defs and_then_def
        consumers_of_def field_ref_def iter_start_def iter_next_def edges_delete_def Let_def)
  then obtain s' where s': "setValue 8 0 (Val 1) sum_graph_read = Ok () s'"
    by (cases "setValue 8 0 (Val 1) sum_graph_read") auto
  from thm1 ne s' mem live have
    "v_value (valuePipelines s' 0) = Val 1"
    "v_valueVersion (valuePipelines s' 0) = v_valueVersion (valuePipelines sum_graph_read 0) + 1"
    "p_stale (pipelines s' (fst (0::nat, 2::nat))) \<noteq> StaleFalse"
    unfolding n8 by blast+
  with same ne mem live s' show ?thesis
    by (simp add: sum_graph_read_fields)
qed

text \<open>
  C10. \<open>mutateValue\<close> runs the mutator first. If the mutator throws, \<open>mutateValue\<close> throws
  the same and leaves the state in which the mutator threw: it has neither touched
  \<open>valueVersion\<close> nor notified anyone. If the mutator returns, \<open>valueVersion\<close> is
  incremented and \<open>producerNotifyConsumers\<close> is called whatever the mutator did; when
  that returns, the node holds the reference it held, at the incremented version, and
  every consumer with a live entry is stale.
\<close>

theorem mutateValue_effect:
  "(\<forall>e s1. run n (mutator (v_value (valuePipelines s j))) s = Err e s1 \<longrightarrow>
       mutateValue n j mutator s = Err e s1)
   \<and> (\<forall>x s1. run n (mutator (v_value (valuePipelines s j))) s = Ok x s1 \<longrightarrow>
        mutateValue n j mutator s =
          producerNotifyConsumers n (V j)
            (upd_value j (\<lambda>v. v\<lparr>v_valueVersion := v_valueVersion v + 1\<rparr>) s1)
        \<and> (\<forall>s'. mutateValue n j mutator s = Ok () s' \<longrightarrow>
              v_value (valuePipelines s' j) = v_value (valuePipelines s1 j)
            \<and> v_valueVersion (valuePipelines s' j) = v_valueVersion (valuePipelines s1 j) + 1
            \<and> (\<forall>e\<in>set (entries (v_consumers (valuePipelines s1 j))).
                  live_edge s1 e \<longrightarrow> p_stale (pipelines s' (fst e)) \<noteq> StaleFalse)))"
proof (intro conjI impI allI ballI)
  fix e s1 assume "run n (mutator (v_value (valuePipelines s j))) s = Err e s1"
  then show "mutateValue n j mutator s = Err e s1"
    by (simp add: mutateValue_def and_then_def)
next
  fix x s1
  assume r: "run n (mutator (v_value (valuePipelines s j))) s = Ok x s1"
  let ?s2 = "upd_value j (\<lambda>v. v\<lparr>v_valueVersion := v_valueVersion v + 1\<rparr>) s1"
  from r show eq: "mutateValue n j mutator s = producerNotifyConsumers n (V j) ?s2"
    by (simp add: mutateValue_def and_then_def Let_def)
  fix s' assume "mutateValue n j mutator s = Ok () s'"
  with eq have run: "producerNotifyConsumers n (V j) ?s2 = Ok () s'" by simp
  note rel = producerNotifyConsumers_notified[OF run]
  from rel show "v_value (valuePipelines s' j) = v_value (valuePipelines s1 j)"
    "v_valueVersion (valuePipelines s' j) = v_valueVersion (valuePipelines s1 j) + 1"
    by (simp_all add: notified_def)
  fix e assume "e \<in> set (entries (v_consumers (valuePipelines s1 j)))" "live_edge s1 e"
  then have "e \<in> set (entries (v_consumers (valuePipelines ?s2 j)))" "live_edge ?s2 e"
    by (simp_all add: live_edge_def)
  then show "p_stale (pipelines s' (fst e)) \<noteq> StaleFalse"
    by (rule producerNotifyConsumers_marks[OF run])
qed

theorem mutateValue_effect_witness:
  "run 8 Throw sum_graph_read = Err Thrown sum_graph_read
   \<and> mutateValue 8 0 (\<lambda>v. Throw) sum_graph_read = Err Thrown sum_graph_read
   \<and> run 8 (Return (v_value (valuePipelines sum_graph_read 0))) sum_graph_read
       = Ok (Val 0) sum_graph_read
   \<and> (0, 2) \<in> set (entries (v_consumers (valuePipelines sum_graph_read 0)))
   \<and> live_edge sum_graph_read (0, 2)
   \<and> map_option (\<lambda>s'. v_value (valuePipelines s' 0)) (final (mutateValue 8 0 Return sum_graph_read))
       = Some (Val 0)
   \<and> map_option (\<lambda>s'. v_valueVersion (valuePipelines s' 0))
        (final (mutateValue 8 0 Return sum_graph_read)) = Some 2
   \<and> map_option (\<lambda>s'. p_stale (pipelines s' 0) \<noteq> StaleFalse)
        (final (mutateValue 8 0 Return sum_graph_read)) = Some True"
proof -
  note thm0 = mutateValue_effect[of 8 "\<lambda>v. Throw" sum_graph_read 0]
  note thm1 = mutateValue_effect[of 8 Return sum_graph_read 0]
  have r0: "run 8 Throw sum_graph_read = Err Thrown sum_graph_read"
    by (simp add: numeral_eq_Suc run_body_def)
  have m0: "mutateValue 8 0 (\<lambda>v. Throw) sum_graph_read = Err Thrown sum_graph_read"
    using thm0 r0 by blast
  have r1: "run 8 (Return (v_value (valuePipelines sum_graph_read 0))) sum_graph_read
       = Ok (Val 0) sum_graph_read"
    by (simp add: numeral_eq_Suc run_body_def sum_graph_read_fields)
  have mem: "(0, 2) \<in> set (entries (v_consumers (valuePipelines sum_graph_read 0)))"
    by (simp add: sum_graph_read_fields entries_def)
  have live: "live_edge sum_graph_read (0, 2)"
    by (simp add: sum_graph_read_fields live_edge_def)
  have "returned (mutateValue 8 0 Return sum_graph_read) = Some ()"
    by (simp add: mutateValue_def numeral_eq_Suc body_defs sum_graph_read_fields upd_defs
        and_then_def consumers_of_def field_ref_def iter_start_def iter_next_def edges_delete_def
        Let_def)
  then obtain s' where s': "mutateValue 8 0 Return sum_graph_read = Ok () s'"
    by (cases "mutateValue 8 0 Return sum_graph_read") auto
  from thm1 r1 s' mem live have
    "v_value (valuePipelines s' 0) = v_value (valuePipelines sum_graph_read 0)"
    "v_valueVersion (valuePipelines s' 0) = v_valueVersion (valuePipelines sum_graph_read 0) + 1"
    "p_stale (pipelines s' (fst (0::nat, 2::nat))) \<noteq> StaleFalse"
    by blast+
  with r0 m0 r1 mem live s' show ?thesis
    by (simp add: sum_graph_read_fields)
qed

text \<open>
  C3. When \<open>calculate()\<close>, called by \<open>recomputeValue\<close>, returns a value identical to the
  cached one, \<open>recomputeValue\<close> returns with \<open>valueVersion\<close> as it was and the cached value
  kept, and every later read of the pipeline returns that value.
\<close>

theorem recompute_identical:
  assumes "p_value (pipelines s i) \<noteq> COMPUTING"
    and "run n (p_calculate (pipelines s i)) (recompute_begin i s) = Ok (p_value (pipelines s i)) s5"
  shows "\<exists>s'. recomputeValue (Suc n) i s = Ok () s'
            \<and> p_valueVersion (pipelines s' i) = p_valueVersion (pipelines s i)
            \<and> p_value (pipelines s' i) = p_value (pipelines s i)
            \<and> (\<forall>m. get_value (Suc (Suc m)) (P i) s'
                     = Ok (p_value (pipelines s i)) (producerAccessed (P i) s'))"
proof -
  let ?old = "p_value (pipelines s i)"
  let ?s' = "recompute_finish i ?old ?old (s5\<lparr>activeConsumer := activeConsumer s\<rparr>)"
  have r: "recomputeValue (Suc n) i s = Ok () ?s'"
    using assms by (simp add: recomputeValue_body_alt and_then_def try_finally_def)
  have fr: "frame (recompute_begin i s) s5"
    using framed(11)[of "recompute_begin i s" n "p_calculate (pipelines s i)"] assms(1)
    by (simp add: assms(2)[simplified])
  have "p_valueVersion (pipelines s5 i) = p_valueVersion (pipelines (recompute_begin i s) i)"
    by (rule frame_computingD(3)[OF fr]) simp
  then have vv: "p_valueVersion (pipelines ?s' i) = p_valueVersion (pipelines s i)"
    by (simp add: recompute_finish_def)
  have v: "p_value (pipelines ?s' i) = ?old" "p_stale (pipelines ?s' i) = StaleFalse"
    by (simp_all add: recompute_finish_def)
  have g: "get_value (Suc (Suc m)) (P i) ?s' = Ok ?old (producerAccessed (P i) ?s')" for m
    using v by (simp add: get_value_body_def checkForActuallyChangedValue_body_def and_then_def)
  from r vv v(1) g show ?thesis by blast
qed

theorem recompute_identical_witness:
  "p_value (pipelines sum_graph_toggled 0) \<noteq> COMPUTING
   \<and> returned (run 8 (p_calculate (pipelines sum_graph_toggled 0)) (recompute_begin 0 sum_graph_toggled))
       = Some (p_value (pipelines sum_graph_toggled 0))
   \<and> returned (recomputeValue (Suc 8) 0 sum_graph_toggled) = Some ()
   \<and> valueVersion_after (P 0) (recomputeValue (Suc 8) 0 sum_graph_toggled) = Some 2
   \<and> valueVersion_of sum_graph_toggled (P 0) = 2
   \<and> value_after (P 0) (recomputeValue (Suc 8) 0 sum_graph_toggled) = Some (Val 0)"
proof -
  have nc: "p_value (pipelines sum_graph_toggled 0) \<noteq> COMPUTING"
    by (simp add: sum_graph_toggled_fields)
  have ev: "returned (run 8 (p_calculate (pipelines sum_graph_toggled 0)) (recompute_begin 0 sum_graph_toggled))
       = Some (p_value (pipelines sum_graph_toggled 0))"
    by (simp add: numeral_eq_Suc body_defs sum_graph_toggled_fields eval_defs Let_def)
  then obtain s5 where "run 8 (p_calculate (pipelines sum_graph_toggled 0)) (recompute_begin 0 sum_graph_toggled)
       = Ok (p_value (pipelines sum_graph_toggled 0)) s5"
    by (cases "run 8 (p_calculate (pipelines sum_graph_toggled 0)) (recompute_begin 0 sum_graph_toggled)")
       auto
  from recompute_identical[OF nc this] obtain s' where
    "recomputeValue (Suc 8) 0 sum_graph_toggled = Ok () s'"
    "p_valueVersion (pipelines s' 0) = p_valueVersion (pipelines sum_graph_toggled 0)"
    "p_value (pipelines s' 0) = p_value (pipelines sum_graph_toggled 0)"
    by blast
  then have
    "recomputeValue (Suc 8) 0 sum_graph_toggled = Ok () s'"
    "p_valueVersion (pipelines s' 0) = 2" "p_value (pipelines s' 0) = Val 0"
    by (simp_all only: sum_graph_toggled_fields Pipeline.simps)
  then have "returned (recomputeValue (Suc 8) 0 sum_graph_toggled) = Some ()"
    "valueVersion_after (P 0) (recomputeValue (Suc 8) 0 sum_graph_toggled) = Some 2"
    "value_after (P 0) (recomputeValue (Suc 8) 0 sum_graph_toggled) = Some (Val 0)"
    by (simp_all add: valueVersion_after_def value_after_def valueVersion_of_def value_of_def)
  moreover have "valueVersion_of sum_graph_toggled (P 0) = 2"
    by (simp add: valueVersion_of_def sum_graph_toggled_fields)
  ultimately show ?thesis
    using nc ev by blast
qed

text \<open>
  C7 as amended. A read of a node by the host (no \<open>calculate()\<close> is running:
  \<open>activeConsumer\<close> is \<open>undefined\<close>) has returned; then the host has done whatever it
  wanted (it has read other nodes, called \<open>setValue\<close>, \<open>updateValue\<close> or \<open>mutateValue\<close>, and
  some of it may have thrown), and no leaf has changed by it: every \<open>ValuePipeline\<close> has
  the \<open>valueVersion\<close> it had. Then a second read of the node returns
  the same value and leaves the state as it is: it calls no \<open>calculate()\<close> at all. The
  \<open>valueVersion\<close> of no leaf moves when only reads and calls of \<open>setValue\<close> with the value
  the leaf holds are made and no \<open>calculate()\<close> writes (\<open>idle_operations_keep_leaves\<close>).
\<close>

theorem second_read_no_calculate:
  assumes "activeConsumer s = None" and "get_value n q s = Ok x s1"
    and "perform_all m ops s1 = Some s2"
    and "\<forall>j. v_valueVersion (valuePipelines s2 j) = v_valueVersion (valuePipelines s1 j)"
  shows "get_value (Suc (Suc k)) q s2 = Ok x s2
       \<and> calculations_after (get_value (Suc (Suc k)) q s2) = Some (calculationsCount s2)"
proof -
  from framed(3)[of s n q] assms(1,2) have ac1: "activeConsumer s1 = None"
    by (simp add: frame_def)
  note K = perform_all_keeps[OF assms(3)]
  from keeps_frame[OF K] ac1 have ac: "activeConsumer s2 = None" by (simp add: frame_def)
  have g: "get_value (Suc (Suc k)) q s2 = Ok x s2"
  proof (cases q)
    case (V j)
    from assms(2) obtain n' where n: "n = Suc n'" by (cases n) auto
    from assms(1,2) have "s1 = s" "x = v_value (valuePipelines s j)"
      unfolding n V by (auto simp: get_value_body_def Let_def)
    moreover from K assms(4) have "v_value (valuePipelines s2 j) = v_value (valuePipelines s1 j)"
      by (simp add: keeps_def)
    ultimately show ?thesis using ac by (simp add: V get_value_body_def)
  next
    case (P i)
    from assms(2) obtain n' where n: "n = Suc n'" by (cases n) auto
    from assms(2) obtain s0 where c: "checkForActuallyChangedValue n' i s = Ok () s0"
      and s1: "s1 = producerAccessed (P i) s0" and x: "x = p_value (pipelines s1 i)"
      unfolding n P
      by (cases "checkForActuallyChangedValue n' i s")
         (auto simp: get_value_body_def and_then_def Let_def)
    from checkForActuallyChangedValue_clean[OF c] s1
    have "p_stale (pipelines s1 i) = StaleFalse" by simp
    with K assms(4) have "p_stale (pipelines s2 i) = StaleFalse"
      "p_value (pipelines s2 i) = p_value (pipelines s1 i)" by (simp_all add: keeps_def)
    with ac x show ?thesis
      by (simp add: P get_value_body_def checkForActuallyChangedValue_body_def and_then_def)
  qed
  then show ?thesis by (simp add: calculations_after_def)
qed

theorem second_read_no_calculate_witness:
  "activeConsumer sum_graph = None
   \<and> get_value 8 (P 0) sum_graph = Ok (Val 0) sum_graph_read
   \<and> perform_all 8 [GetValue (P 1), SetValue 0 (Val 0)] sum_graph_read = Some sum_graph_read_both
   \<and> (\<forall>j. v_valueVersion (valuePipelines sum_graph_read_both j)
            = v_valueVersion (valuePipelines sum_graph_read j))
   \<and> calculationsCount sum_graph_read_both = 2
   \<and> get_value (Suc (Suc 0)) (P 0) sum_graph_read_both = Ok (Val 0) sum_graph_read_both
   \<and> calculations_after (get_value (Suc (Suc 0)) (P 0) sum_graph_read_both) = Some 2"
proof -
  have a: "activeConsumer sum_graph = None"
    by (simp add: sum_graph_def initial_state_def)
  have i: "list_all (idle sum_graph_read) [GetValue (P 1), SetValue 0 (Val 0)]"
    by (simp add: sum_graph_read_fields)
  from idle_operations_keep_leaves[OF sum_graph_read_only i sum_graph_read_both_eval]
  have v: "\<forall>j. v_valueVersion (valuePipelines sum_graph_read_both j)
            = v_valueVersion (valuePipelines sum_graph_read j)" by simp
  have c: "calculationsCount sum_graph_read_both = 2"
    unfolding sum_graph_read_both_def sum_graph_read_def
    by (simp add: numeral_eq_Suc body_defs eval_defs sum_graph_def perform_def Let_def)
  from second_read_no_calculate[OF a sum_graph_read_eval sum_graph_read_both_eval v, of 0]
  have "get_value (Suc (Suc 0)) (P 0) sum_graph_read_both = Ok (Val 0) sum_graph_read_both"
    "calculations_after (get_value (Suc (Suc 0)) (P 0) sum_graph_read_both) = Some 2"
    by (simp_all add: c calculations_after_def)
  with a sum_graph_read_eval sum_graph_read_both_eval v c
  show ?thesis by blast
qed

text \<open>
  The counterexample to C7 as stated is scenario S2: between two reads of \<open>c\<close>, \<open>a\<close> is
  set to 1 and back to 0, so both leaves hold at the second read what they held at the
  first; the second read calls \<open>calculate()\<close> once.
\<close>

theorem second_read_counterexample:
  "get_value 8 (P 0) sum_graph = Ok (Val 0) sum_graph_read
   \<and> perform_all 8 [SetValue 0 (Val 1), SetValue 0 (Val 0)] sum_graph_read = Some sum_graph_toggled
   \<and> value_of sum_graph_toggled (V 0) = value_of sum_graph_read (V 0)
   \<and> value_of sum_graph_toggled (V 1) = value_of sum_graph_read (V 1)
   \<and> calculationsCount sum_graph_toggled = 1
   \<and> calculations_after (get_value 8 (P 0) sum_graph_toggled) = Some 2"
proof -
  have "perform_all 8 [SetValue 0 (Val 1), SetValue 0 (Val 0)] sum_graph_read \<noteq> None"
    by (simp add: numeral_eq_Suc body_defs sum_graph_read_fields upd_defs and_then_def perform_def
        consumers_of_def field_ref_def iter_start_def iter_next_def edges_delete_def Let_def)
  then have "perform_all 8 [SetValue 0 (Val 1), SetValue 0 (Val 0)] sum_graph_read = Some sum_graph_toggled"
    unfolding sum_graph_toggled_def by (auto split: option.splits)
  moreover have "calculations_after (get_value 8 (P 0) sum_graph_toggled) = Some 2"
    by (simp add: calculations_after_def numeral_eq_Suc body_defs sum_graph_toggled_fields
        eval_defs Let_def)
  ultimately show ?thesis
    using sum_graph_read_eval
    by (simp add: value_of_def sum_graph_read_fields sum_graph_toggled_fields)
qed

text \<open>
  C4 as amended. Over every sequence of top-level operations no \<open>valueVersion\<close> and no
  \<open>trackingVersion\<close> decreases. \<open>setValue\<close> increments \<open>valueVersion\<close> exactly when the new
  value is not identical to the held one; \<open>recomputeValue\<close> increments \<open>trackingVersion\<close>
  once, before it calls \<open>calculate()\<close>, and \<open>valueVersion\<close> exactly when \<open>calculate()\<close>
  returns a value not identical to the cached one; \<open>mutateValue\<close> increments
  \<open>valueVersion\<close> whenever the mutator returns, with the held value as it was.
\<close>

theorem versions_monotonic:
  "(\<forall>s'. perform_all n ops s = Some s' \<longrightarrow>
       (\<forall>j. v_valueVersion (valuePipelines s j) \<le> v_valueVersion (valuePipelines s' j))
     \<and> (\<forall>i. p_valueVersion (pipelines s i) \<le> p_valueVersion (pipelines s' i)
            \<and> p_trackingVersion (pipelines s i) \<le> p_trackingVersion (pipelines s' i)))
   \<and> res_all (\<lambda>s'. v_valueVersion (valuePipelines s' j) =
                      (if x = v_value (valuePipelines s j) then v_valueVersion (valuePipelines s j)
                       else v_valueVersion (valuePipelines s j) + 1))
        (setValue n j x s)
   \<and> (p_value (pipelines s i) \<noteq> COMPUTING \<longrightarrow>
        p_trackingVersion (pipelines (recompute_begin i s) i) = p_trackingVersion (pipelines s i) + 1
      \<and> res_all (\<lambda>s'. p_trackingVersion (pipelines s' i) = p_trackingVersion (pipelines s i) + 1)
           (recomputeValue (Suc n) i s)
      \<and> (\<forall>y s5. run n (p_calculate (pipelines s i)) (recompute_begin i s) = Ok y s5 \<longrightarrow>
            res_all (\<lambda>s'. p_value (pipelines s' i) = y
                         \<and> p_valueVersion (pipelines s' i) =
                             (if y = p_value (pipelines s i) then p_valueVersion (pipelines s i)
                              else p_valueVersion (pipelines s i) + 1))
              (recomputeValue (Suc n) i s)))
   \<and> (\<forall>y s1. run n (mutator (v_value (valuePipelines s k))) s = Ok y s1 \<longrightarrow>
        res_all (\<lambda>s'. v_value (valuePipelines s' k) = v_value (valuePipelines s1 k)
                     \<and> v_valueVersion (valuePipelines s' k) = v_valueVersion (valuePipelines s1 k) + 1)
          (mutateValue n k mutator s))"
proof (intro conjI impI allI)
  fix s' assume "perform_all n ops s = Some s'"
  note fr = perform_all_frame[OF this]
  show "v_valueVersion (valuePipelines s j) \<le> v_valueVersion (valuePipelines s' j)" for j
    by (rule frameD(3)[OF fr])
  show "p_valueVersion (pipelines s i) \<le> p_valueVersion (pipelines s' i)" for i
    by (rule frameD(4)[OF fr])
  show "p_trackingVersion (pipelines s i) \<le> p_trackingVersion (pipelines s' i)" for i
    by (rule frameD(5)[OF fr])
next
  show "res_all (\<lambda>s'. v_valueVersion (valuePipelines s' j) =
                      (if x = v_value (valuePipelines s j) then v_valueVersion (valuePipelines s j)
                       else v_valueVersion (valuePipelines s j) + 1))
        (setValue n j x s)"
  proof (cases n)
    case 0
    then show ?thesis by simp
  next
    case (Suc m)
    show ?thesis
    proof (cases "x = v_value (valuePipelines s j)")
      case True
      then show ?thesis by (simp add: Suc setValue_body_def)
    next
      case False
      then show ?thesis
        unfolding Suc
        by (auto simp: setValue_body_def Let_def notified_def
            intro!: res_all_mono[OF notified_res_all_pNC])
    qed
  qed
next
  assume nc: "p_value (pipelines s i) \<noteq> COMPUTING"
  show "p_trackingVersion (pipelines (recompute_begin i s) i) = p_trackingVersion (pipelines s i) + 1"
    by simp
  let ?c = "p_calculate (pipelines s i)" and ?b = "recompute_begin i s"
  have fr: "res_rel frame frame ?b (run n ?c ?b)" by (rule framed)
  have frozen: "p_trackingVersion (pipelines s5 i) = p_trackingVersion (pipelines s i) + 1
     \<and> p_valueVersion (pipelines s5 i) = p_valueVersion (pipelines s i)"
    if "frame ?b s5" for s5
    using frame_computingD(3,4)[OF that, of i] by simp
  show "res_all (\<lambda>s'. p_trackingVersion (pipelines s' i) = p_trackingVersion (pipelines s i) + 1)
           (recomputeValue (Suc n) i s)"
    using nc fr frozen
    by (cases "run n ?c ?b")
       (auto simp: recomputeValue_body_alt and_then_def try_finally_def recompute_finish_def Let_def)
  fix y s5 assume "run n ?c ?b = Ok y s5"
  then show "res_all (\<lambda>s'. p_value (pipelines s' i) = y
                         \<and> p_valueVersion (pipelines s' i) =
                             (if y = p_value (pipelines s i) then p_valueVersion (pipelines s i)
                              else p_valueVersion (pipelines s i) + 1))
              (recomputeValue (Suc n) i s)"
    using nc fr frozen[of s5]
    by (auto simp: recomputeValue_body_alt and_then_def try_finally_def recompute_finish_def Let_def)
next
  fix y s1 assume "run n (mutator (v_value (valuePipelines s k))) s = Ok y s1"
  then show "res_all (\<lambda>s'. v_value (valuePipelines s' k) = v_value (valuePipelines s1 k)
                     \<and> v_valueVersion (valuePipelines s' k) = v_valueVersion (valuePipelines s1 k) + 1)
          (mutateValue n k mutator s)"
    by (auto simp: mutateValue_def and_then_def Let_def notified_def
        intro!: res_all_mono[OF notified_res_all_pNC])
qed


theorem versions_monotonic_witness:
  "perform_all 8 [GetValue (P 0)] sum_graph = Some sum_graph_read
   \<and> p_value (pipelines sum_graph 0) \<noteq> COMPUTING
   \<and> returned (run 8 (p_calculate (pipelines sum_graph 0)) (recompute_begin 0 sum_graph))
       = Some (Val 0)
   \<and> run 8 (Return (v_value (valuePipelines sum_graph 0))) sum_graph = Ok (Val 0) sum_graph
   \<and> p_trackingVersion (pipelines sum_graph 0) \<le> p_trackingVersion (pipelines sum_graph_read 0)
   \<and> p_valueVersion (pipelines sum_graph 0) \<le> p_valueVersion (pipelines sum_graph_read 0)
   \<and> p_trackingVersion (pipelines (recompute_begin 0 sum_graph) 0)
       = p_trackingVersion (pipelines sum_graph 0) + 1"
proof -
  note T = versions_monotonic[where n = 8 and ops = "[GetValue (P 0)]" and s = sum_graph
      and j = 0 and x = "Val 1" and i = 0 and mutator = Return and k = 0]
  have a: "perform_all 8 [GetValue (P 0)] sum_graph = Some sum_graph_read"
    by (simp add: perform_def sum_graph_read_eval and_then_def)
  have b: "p_value (pipelines sum_graph 0) \<noteq> COMPUTING"
    by (simp add: sum_graph_def initial_state_def Pipeline_new_def)
  have c: "returned (run 8 (p_calculate (pipelines sum_graph 0)) (recompute_begin 0 sum_graph))
       = Some (Val 0)"
    by (simp add: numeral_eq_Suc body_defs eval_defs sum_graph_def Let_def)
  have d: "run 8 (Return (v_value (valuePipelines sum_graph 0))) sum_graph = Ok (Val 0) sum_graph"
    by (simp add: numeral_eq_Suc run_body_def sum_graph_def initial_state_def ValuePipeline_new_def)
  from T a b have
    "p_trackingVersion (pipelines sum_graph 0) \<le> p_trackingVersion (pipelines sum_graph_read 0)"
    "p_valueVersion (pipelines sum_graph 0) \<le> p_valueVersion (pipelines sum_graph_read 0)"
    "p_trackingVersion (pipelines (recompute_begin 0 sum_graph) 0)
       = p_trackingVersion (pipelines sum_graph 0) + 1"
    by blast+
  with a b c d show ?thesis by blast
qed

text \<open>
  The counterexample to C4 as stated: \<open>mutateValue\<close> with a mutator that does nothing
  increments \<open>valueVersion\<close> although the value has not changed.
\<close>

theorem versions_counterexample:
  "value_of sum_graph (V 0) = Val 0
   \<and> valueVersion_of sum_graph (V 0) = 1
   \<and> value_after (V 0) (mutateValue 8 0 Return sum_graph) = Some (Val 0)
   \<and> valueVersion_after (V 0) (mutateValue 8 0 Return sum_graph) = Some 2"
  by (simp add: value_after_def valueVersion_after_def mutateValue_def numeral_eq_Suc body_defs
      eval_defs sum_graph_def value_of_def Let_def)

text \<open>
  C6. The code does not do what the claim says. While a pipeline is inside its own
  \<open>calculate()\<close>, its \<open>stale\<close> field is what it was when \<open>recomputeValue\<close> began
  (\<open>recomputeValue\<close> clears it only after \<open>calculate()\<close> has returned), and when that is
  not \<open>false\<close>, \<open>notify\<close> leaves by its first \<open>return\<close> and does not reach the test for
  \<open>COMPUTING\<close> (\<open>notify_during_calculate\<close> above; it reaches it only after a read of the
  pipeline during the polling of its own producers, \<open>notify_after_reentry\<close>).
  Here \<open>c\<close> is in the \<open>COMPUTING\<close> state and registered with \<open>a\<close>
  at its current \<open>trackingVersion\<close>; \<open>a.setValue(1)\<close>, called by the \<open>calculate()\<close> of \<open>c\<close>,
  delivers \<open>notify\<close> to \<open>c\<close>, which returns without an error, and so does the read of \<open>c\<close>.
\<close>

theorem notify_while_computing:
  "p_value (pipelines writing_graph_reading 0) = COMPUTING
   \<and> entries (v_consumers (valuePipelines writing_graph_reading 0))
       = [(0, p_trackingVersion (pipelines writing_graph_reading 0))]
   \<and> notify 8 0 (Some (V 0)) writing_graph_reading = Ok () writing_graph_reading
   \<and> returned (setValue 8 0 (Val 1) writing_graph_reading) = Some ()
   \<and> returned (get_value 12 (P 0) writing_graph) = Some (Val 0)
   \<and> thrown (get_value 12 (P 0) writing_graph) = None"
  by (simp add: writing_graph_reading_def writing_graph_def numeral_eq_Suc body_defs eval_defs
      entries_def recompute_begin_def Let_def)

text \<open>
  C8. In the loop of \<open>consumerPollValueStatus\<close>, an entry whose producer is not the
  remembered \<open>skipProducer\<close> and whose edge is dead is removed from the consumer's
  \<open>producers\<close> map and from the producer's \<open>consumers\<close> map, and the loop goes on with the
  next entry: the result is that of the rest of the loop. So when every entry that is left
  is dead or is the \<open>skipProducer\<close>, the loop returns \<open>false\<close>, with every dead edge
  removed on both sides.
\<close>

theorem poll_dead_edges:
  assumes "wf_maps s"
  shows "(\<forall>q vv it'. iter_next it (p_producers (pipelines s c)) = Some ((q, vv), it')
                    \<and> Some q \<noteq> skip \<and> dead_edge s c q \<longrightarrow>
            pollLoop (Suc n) c r it skip s = pollLoop n c r it' skip (unlink r c q s)
          \<and> unlinked r c q (unlink r c q s))
       \<and> ((\<forall>e\<in>set (remaining it (p_producers (pipelines s c))).
              Some (fst e) = skip \<or> dead_edge s c (fst e))
          \<and> length (remaining it (p_producers (pipelines s c))) < m \<longrightarrow>
            (\<exists>s'. pollLoop m c r it skip s = Ok False s'
                 \<and> (\<forall>e\<in>set (remaining it (p_producers (pipelines s c))).
                       Some (fst e) \<noteq> skip \<longrightarrow> unlinked r c (fst e) s')))"
proof (intro conjI allI impI)
  fix q vv it'
  assume a: "iter_next it (p_producers (pipelines s c)) = Some ((q, vv), it')
               \<and> Some q \<noteq> skip \<and> dead_edge s c q"
  then show "pollLoop (Suc n) c r it skip s = pollLoop n c r it' skip (unlink r c q s)"
    by (intro pollLoop_dead_step) simp_all
  show "unlinked r c q (unlink r c q s)"
    by (rule unlinked_unlink_same[OF assms])
next
  assume "(\<forall>e\<in>set (remaining it (p_producers (pipelines s c))).
              Some (fst e) = skip \<or> dead_edge s c (fst e))
          \<and> length (remaining it (p_producers (pipelines s c))) < m"
  then have "\<forall>e\<in>set (remaining it (p_producers (pipelines s c))).
              Some (fst e) = skip \<or> dead_edge s c (fst e)"
    "length (remaining it (p_producers (pipelines s c))) < m" by simp_all
  from pollLoop_all_dead[OF assms this, of r] show
    "\<exists>s'. pollLoop m c r it skip s = Ok False s'
                 \<and> (\<forall>e\<in>set (remaining it (p_producers (pipelines s c))).
                       Some (fst e) \<noteq> skip \<longrightarrow> unlinked r c (fst e) s')"
    by blast
qed

theorem poll_dead_edges_witness:
  "wf_maps dynamic_graph_polled
   \<and> iter_next (Snapshot [(V 1, 1), (P 1, 2)]) (p_producers (pipelines dynamic_graph_polled 0))
       = Some ((V 1, 1), Snapshot [(P 1, 2)])
   \<and> dead_edge dynamic_graph_polled 0 (V 1)
   \<and> remaining (Snapshot [(V 1, 1), (P 1, 2)]) (p_producers (pipelines dynamic_graph_polled 0))
       = [(V 1, 1), (P 1, 2)]
   \<and> pollLoop (Suc 2) 0 LinearRef (Snapshot [(V 1, 1), (P 1, 2)]) (Some (P 1)) dynamic_graph_polled
       = Ok False (unlink LinearRef 0 (V 1) dynamic_graph_polled)
   \<and> unlinked LinearRef 0 (V 1) (unlink LinearRef 0 (V 1) dynamic_graph_polled)
   \<and> returned (consumerPollValueStatus 12 0 (StaleBy (P 1)) dynamic_graph_polled) = Some False"
proof -
  let ?s = dynamic_graph_polled and ?it = "Snapshot [(V 1, 1), (P 1, 2)]"
  note T = poll_dead_edges[OF wf_maps_dynamic_graph_polled, of ?it 0 "Some (P 1)" 2 LinearRef 3]
  have nx: "iter_next ?it (p_producers (pipelines ?s 0)) = Some ((V 1, 1), Snapshot [(P 1, 2)])"
    by (simp add: iter_next_def)
  have dead: "dead_edge ?s 0 (V 1)"
    by (simp add: dead_edge_def dynamic_graph_polled_fields consumers_of_def field_ref_def
        edges_get_def LinearMap_get_def)
  have rem: "remaining ?it (p_producers (pipelines ?s 0)) = [(V 1, 1), (P 1, 2)]"
    by (simp add: remaining_def)
  from T nx dead have step:
    "pollLoop (Suc 2) 0 LinearRef ?it (Some (P 1)) ?s
       = pollLoop 2 0 LinearRef (Snapshot [(P 1, 2)]) (Some (P 1)) (unlink LinearRef 0 (V 1) ?s)"
    "unlinked LinearRef 0 (V 1) (unlink LinearRef 0 (V 1) ?s)"
    by blast+
  have "pollLoop 2 0 LinearRef (Snapshot [(P 1, 2)]) (Some (P 1)) t = Ok False t" for t :: "bit state"
    by (simp add: numeral_eq_Suc pollLoop_body_def iter_next_def)
  with step have run: "pollLoop (Suc 2) 0 LinearRef ?it (Some (P 1)) ?s
       = Ok False (unlink LinearRef 0 (V 1) ?s)" by simp
  have poll: "returned (consumerPollValueStatus 12 0 (StaleBy (P 1)) dynamic_graph_polled) = Some False"
    unfolding dynamic_graph_polled_def
    by (simp add: numeral_eq_Suc body_defs eval_defs dynamic_graph_def dynamic_out_def Let_def)
  from wf_maps_dynamic_graph_polled nx dead rem run step(2) poll show ?thesis by blast
qed






end
